theory Spec2Isabelle
  imports Main "HOL-Library.Sublist" "HOL-Library.Multiset" "HOL-Library.AList"
begin

section \<open>Go strings\<close>

text \<open>
  A Go string is a sequence of bytes; \<^typ>\<open>string\<close> is a list of 8-bit characters.
  The functions of package \<open>strings\<close> that the engine calls are written out below for
  the arguments the engine gives them: the separator and the placeholder are never
  empty (\<open>"=="\<close>, \<open>"!="\<close>, \<open>"${" + key + "}"\<close>), and the cutset is ASCII.
\<close>

text \<open>\<open>strings.Contains(s, substr)\<close>: \<open>substr\<close> occurs at some position of \<open>s\<close>.\<close>

fun Contains :: "string \<Rightarrow> string \<Rightarrow> bool" where
  "Contains [] substr = (substr = [])"
| "Contains (c # cs) substr = (prefix substr (c # cs) \<or> Contains cs substr)"

text \<open>
  \<open>strings.ReplaceAll(s, old, new)\<close>: the non-overlapping occurrences of \<open>old\<close>, found
  from the left, are replaced by \<open>new\<close>. The replacement text is not scanned again.
  An empty \<open>old\<close> (which the engine never passes) is not modelled: the text is returned
  as it is.
\<close>

fun ReplaceAll :: "string \<Rightarrow> string \<Rightarrow> string \<Rightarrow> string" where
  "ReplaceAll [] old new = []"
| "ReplaceAll (c # cs) old new =
     (if old \<noteq> [] \<and> prefix old (c # cs)
      then new @ ReplaceAll (drop (length old - 1) cs) old new
      else c # ReplaceAll cs old new)"

text \<open>
  \<open>strings.Split(s, sep)\<close> for a non-empty \<open>sep\<close>: the pieces of \<open>s\<close> between the
  non-overlapping occurrences of \<open>sep\<close>, found from the left; one piece more than
  there are occurrences, so the empty text gives one empty piece. The result is never
  the empty list, so the first branch of the \<open>case\<close> below is never taken.
\<close>

fun Split :: "string \<Rightarrow> string \<Rightarrow> string list" where
  "Split [] sep = [[]]"
| "Split (c # cs) sep =
     (if sep \<noteq> [] \<and> prefix sep (c # cs)
      then [] # Split (drop (length sep - 1) cs) sep
      else (case Split cs sep of
              [] \<Rightarrow> [[c]]
            | p # ps \<Rightarrow> (c # p) # ps))"

text \<open>
  \<open>strings.Trim(s, cutset)\<close> with an ASCII cutset: the leading and the trailing bytes
  that belong to the cutset are removed.
\<close>

definition Trim :: "string \<Rightarrow> string \<Rightarrow> string" where
  "Trim s cutset =
     rev (dropWhile (\<lambda>c. c \<in> set cutset) (rev (dropWhile (\<lambda>c. c \<in> set cutset) s)))"

text \<open>
  The white space of \<open>unicode.IsSpace\<close>, as the UTF-8 byte sequences of its code
  points: U+0009 to U+000D, U+0020, U+0085, U+00A0, U+1680, U+2000 to U+200A, U+2028,
  U+2029, U+202F, U+205F and U+3000.
\<close>

definition whiteSpace :: "string list" where
  "whiteSpace =
     [[CHR 0x09], [CHR 0x0A], [CHR 0x0B], [CHR 0x0C], [CHR 0x0D], [CHR 0x20],
      [CHR 0xC2, CHR 0x85], [CHR 0xC2, CHR 0xA0],
      [CHR 0xE1, CHR 0x9A, CHR 0x80],
      [CHR 0xE2, CHR 0x80, CHR 0x80], [CHR 0xE2, CHR 0x80, CHR 0x81],
      [CHR 0xE2, CHR 0x80, CHR 0x82], [CHR 0xE2, CHR 0x80, CHR 0x83],
      [CHR 0xE2, CHR 0x80, CHR 0x84], [CHR 0xE2, CHR 0x80, CHR 0x85],
      [CHR 0xE2, CHR 0x80, CHR 0x86], [CHR 0xE2, CHR 0x80, CHR 0x87],
      [CHR 0xE2, CHR 0x80, CHR 0x88], [CHR 0xE2, CHR 0x80, CHR 0x89],
      [CHR 0xE2, CHR 0x80, CHR 0x8A],
      [CHR 0xE2, CHR 0x80, CHR 0xA8], [CHR 0xE2, CHR 0x80, CHR 0xA9],
      [CHR 0xE2, CHR 0x80, CHR 0xAF],
      [CHR 0xE2, CHR 0x81, CHR 0x9F],
      [CHR 0xE3, CHR 0x80, CHR 0x80]]"

text \<open>
  The number of bytes of the first of the sequences \<open>seqs\<close> that \<open>s\<close> begins with,
  and 0 when it begins with none of them.
\<close>

definition leadWidth :: "string list \<Rightarrow> string \<Rightarrow> nat" where
  "leadWidth seqs s =
     (case find (\<lambda>sp. prefix sp s) seqs of None \<Rightarrow> 0 | Some sp \<Rightarrow> length sp)"

fun trimLead :: "string list \<Rightarrow> string \<Rightarrow> string" where
  "trimLead seqs [] = []"
| "trimLead seqs (c # cs) =
     (if leadWidth seqs (c # cs) = 0 then c # cs
      else trimLead seqs (drop (leadWidth seqs (c # cs) - 1) cs))"

text \<open>
  \<open>strings.TrimSpace(s)\<close>: the leading and the trailing white space is removed. A
  trailing code point is recognised by its bytes read backwards.
\<close>

definition TrimSpace :: "string \<Rightarrow> string" where
  "TrimSpace s = rev (trimLead (map rev whiteSpace) (rev (trimLead whiteSpace s)))"

section \<open>Package types\<close>

text \<open>
  \<open>time.Duration\<close> and Go's \<open>int\<close> are 64-bit integers; the engine only compares
  them and counts attempts upwards from 0 to \<open>MaxAttempts\<close>, so no operation can wrap
  and they are modelled as \<^typ>\<open>int\<close>. A Go map that is ranged over is an association
  list: its order stands for the iteration order, which Go leaves unspecified.
\<close>

record RetryConfig =
  MaxAttempts :: int
  Delay :: int

record Task =
  Name :: string
  Type :: string
  Command :: string
  Script :: string
  URL :: string
  Method :: string
  Headers :: "(string \<times> string) list"
  Body :: string
  FilePath :: string
  FileContent :: string
  FileAction :: string
  SourcePath :: string
  DestPath :: string
  DependsOn :: "string list"
  Condition :: string
  Retry :: RetryConfig
  Timeout :: int
  ContinueOnError :: bool
  Parallel :: bool

record Workflow =
  WorkflowName :: string
  Description :: string
  Variables :: "(string \<times> string) list"
  Tasks :: "Task list"

text \<open>
  The values of Go's \<open>error\<close> that the executor builds with \<open>fmt.Errorf\<close>, one
  constructor for each format string; an error of the operating system or of the
  HTTP library is carried as its message.
\<close>

datatype error =
    UnknownTaskType string
  | CommandFailed string string
  | CreateRequestFailed string
  | RequestFailed string
  | ReadResponseFailed string
  | HTTPStatus int
  | UnknownFileAction string
  | ReadFileFailed string
  | WriteFileFailed string
  | DeleteFileFailed string
  | ReadSourceFailed string
  | WriteDestFailed string

text \<open>
  \<open>TaskResult\<close>. \<open>Error\<close> is \<open>None\<close> for Go's \<open>nil\<close>. The two time stamps
  \<open>StartTime\<close> and \<open>EndTime\<close> are readings of the wall clock that nothing in the
  engine inspects; they are left out.
\<close>

record TaskResult =
  TaskName :: string
  Success :: bool
  Error :: "error option"
  Output :: string

section \<open>The world outside the engine\<close>

text \<open>
  Everything the program does to the outside is recorded in a log, in the order in
  which it happens: the processes it starts, the HTTP requests it sends, the files it
  touches, its sleeps and the lines it prints. The argument of an event is what the
  program passed to the operating system. A context is the timeout it was derived
  with (\<open>None\<close> for a context without one, such as \<open>context.Background()\<close>).
\<close>

datatype event =
    Shell "int option" string string string
  | HTTPRequest "int option" string string "string option" "(string \<times> string) list"
  | ReadFile string
  | WriteFile string string
  | Remove string
  | Sleep int
  | Printf string int int

text \<open>
  What the outside answers is not fixed by the program: each answer is an arbitrary
  function of the request and of everything that happened before it. \<open>GOOS\<close> is
  \<open>runtime.GOOS\<close>. \<open>cmd_Run\<close> gives the standard output, the standard error and the
  error of \<open>cmd.Run()\<close>; \<open>NewRequest\<close> is the validation of method and URL by
  \<open>http.NewRequestWithContext\<close>; \<open>client_Do\<close> gives the error of \<open>client.Do\<close>, or the
  status code and the outcome of \<open>io.ReadAll\<close> on the response body.
\<close>

datatype http_response = DoError string | Response int "string + string"

record os =
  GOOS :: string
  cmd_Run :: "event list \<Rightarrow> int option \<Rightarrow> string \<Rightarrow> string \<times> string \<times> string option"
  NewRequest :: "string \<Rightarrow> string \<Rightarrow> string option"
  client_Do :: "event list \<Rightarrow> int option \<Rightarrow> string \<Rightarrow> string \<Rightarrow> string option
                  \<Rightarrow> (string \<times> string) list \<Rightarrow> http_response"
  os_ReadFile :: "event list \<Rightarrow> string \<Rightarrow> string + string"
  os_WriteFile :: "event list \<Rightarrow> string \<Rightarrow> string \<Rightarrow> string option"
  os_Remove :: "event list \<Rightarrow> string \<Rightarrow> string option"

section \<open>Package executor\<close>

text \<open>\<open>Executor.replaceVariables\<close>: one \<open>ReplaceAll\<close> for each workflow variable.\<close>

fun Executor_replaceVariables :: "(string \<times> string) list \<Rightarrow> string \<Rightarrow> string" where
  "Executor_replaceVariables [] result = result"
| "Executor_replaceVariables ((key, val) # variables) result =
     Executor_replaceVariables variables (ReplaceAll result (''${'' @ key @ ''}'') val)"

text \<open>
  The backends return the output text, the error and the log. \<open>executeShell\<close> runs
  the script when there is one, the command otherwise, after replacing the variables.
\<close>

definition executeShell ::
  "os \<Rightarrow> (string \<times> string) list \<Rightarrow> int option \<Rightarrow> Task \<Rightarrow> event list
     \<Rightarrow> string \<times> error option \<times> event list" where
  "executeShell sys variables ctx task lg =
     (let command = (if Script task \<noteq> [] then Script task else Command task);
          command = Executor_replaceVariables variables command;
          ev = (if GOOS sys = ''windows'' then Shell ctx ''cmd.exe'' ''/c'' command
                else Shell ctx ''sh'' ''-c'' command)
      in case cmd_Run sys lg ctx command of
           (stdout, stderr, Some err) \<Rightarrow> (stderr, Some (CommandFailed err stderr), lg @ [ev])
         | (stdout, stderr, None) \<Rightarrow> (stdout, None, lg @ [ev]))"

definition executeHTTP ::
  "os \<Rightarrow> (string \<times> string) list \<Rightarrow> int option \<Rightarrow> Task \<Rightarrow> event list
     \<Rightarrow> string \<times> error option \<times> event list" where
  "executeHTTP sys variables ctx task lg =
     (let url = Executor_replaceVariables variables (URL task);
          method = (if Method task = [] then ''GET'' else Method task);
          body = (if Body task \<noteq> [] then Some (Executor_replaceVariables variables (Body task))
                  else None)
      in case NewRequest sys method url of
           Some err \<Rightarrow> ([], Some (CreateRequestFailed err), lg)
         | None \<Rightarrow>
            (let headers = map (\<lambda>(key, val). (key, Executor_replaceVariables variables val))
                               (Headers task);
                 lg' = lg @ [HTTPRequest ctx method url body headers]
             in case client_Do sys lg ctx method url body headers of
                  DoError err \<Rightarrow> ([], Some (RequestFailed err), lg')
                | Response status (Inl err) \<Rightarrow> ([], Some (ReadResponseFailed err), lg')
                | Response status (Inr respBody) \<Rightarrow>
                    (if status \<ge> 400 then (respBody, Some (HTTPStatus status), lg')
                     else (respBody, None, lg'))))"

definition fileRead ::
  "os \<Rightarrow> (string \<times> string) list \<Rightarrow> Task \<Rightarrow> event list
     \<Rightarrow> string \<times> error option \<times> event list" where
  "fileRead sys variables task lg =
     (let filePath = Executor_replaceVariables variables (FilePath task)
      in case os_ReadFile sys lg filePath of
           Inl err \<Rightarrow> ([], Some (ReadFileFailed err), lg @ [ReadFile filePath])
         | Inr content \<Rightarrow> (content, None, lg @ [ReadFile filePath]))"

definition fileWrite ::
  "os \<Rightarrow> (string \<times> string) list \<Rightarrow> Task \<Rightarrow> event list
     \<Rightarrow> string \<times> error option \<times> event list" where
  "fileWrite sys variables task lg =
     (let filePath = Executor_replaceVariables variables (FilePath task);
          content = Executor_replaceVariables variables (FileContent task)
      in case os_WriteFile sys lg filePath content of
           Some err \<Rightarrow> ([], Some (WriteFileFailed err), lg @ [WriteFile filePath content])
         | None \<Rightarrow> (''Successfully wrote to '' @ filePath, None,
                     lg @ [WriteFile filePath content]))"

definition fileDelete ::
  "os \<Rightarrow> (string \<times> string) list \<Rightarrow> Task \<Rightarrow> event list
     \<Rightarrow> string \<times> error option \<times> event list" where
  "fileDelete sys variables task lg =
     (let filePath = Executor_replaceVariables variables (FilePath task)
      in case os_Remove sys lg filePath of
           Some err \<Rightarrow> ([], Some (DeleteFileFailed err), lg @ [Remove filePath])
         | None \<Rightarrow> (''Successfully deleted '' @ filePath, None, lg @ [Remove filePath]))"

definition fileCopy ::
  "os \<Rightarrow> (string \<times> string) list \<Rightarrow> Task \<Rightarrow> event list
     \<Rightarrow> string \<times> error option \<times> event list" where
  "fileCopy sys variables task lg =
     (let sourcePath = Executor_replaceVariables variables (SourcePath task);
          destPath = Executor_replaceVariables variables (DestPath task)
      in case os_ReadFile sys lg sourcePath of
           Inl err \<Rightarrow> ([], Some (ReadSourceFailed err), lg @ [ReadFile sourcePath])
         | Inr sourceData \<Rightarrow>
            (let lg' = lg @ [ReadFile sourcePath]
             in case os_WriteFile sys lg' destPath sourceData of
                  Some err \<Rightarrow> ([], Some (WriteDestFailed err),
                               lg' @ [WriteFile destPath sourceData])
                | None \<Rightarrow> (''Successfully copied '' @ sourcePath @ '' to '' @ destPath, None,
                            lg' @ [WriteFile destPath sourceData])))"

definition executeFile ::
  "os \<Rightarrow> (string \<times> string) list \<Rightarrow> Task \<Rightarrow> event list
     \<Rightarrow> string \<times> error option \<times> event list" where
  "executeFile sys variables task lg =
     (if FileAction task = ''read'' then fileRead sys variables task lg
      else if FileAction task = ''write'' then fileWrite sys variables task lg
      else if FileAction task = ''delete'' then fileDelete sys variables task lg
      else if FileAction task = ''copy'' then fileCopy sys variables task lg
      else ([], Some (UnknownFileAction (FileAction task)), lg))"

text \<open>
  \<open>Executor.Execute\<close> dispatches on the task type and builds the result. Its second
  return value \<open>err\<close> is the \<open>Error\<close> field of the result it returns.
\<close>

definition Execute ::
  "os \<Rightarrow> (string \<times> string) list \<Rightarrow> int option \<Rightarrow> Task \<Rightarrow> event list
     \<Rightarrow> TaskResult \<times> event list" where
  "Execute sys variables ctx task lg =
     (case (if Type task = ''shell'' then executeShell sys variables ctx task lg
            else if Type task = ''http'' then executeHTTP sys variables ctx task lg
            else if Type task = ''file'' then executeFile sys variables task lg
            else ([], Some (UnknownTaskType (Type task)), lg)) of
        (output, err, lg') \<Rightarrow>
          (\<lparr>TaskName = Name task, Success = (err = None), Error = err, Output = output\<rparr>, lg'))"

section \<open>Package workflow: the engine\<close>

text \<open>
  Of the \<open>Engine\<close>, the workflow and the executor never change; its state is the
  map \<open>results\<close>, from task names to results. \<open>storeResult\<close> sets the entry of the
  result's task name (the mutex around every access has no effect on the values).
\<close>

definition storeResult ::
  "(string \<times> TaskResult) list \<Rightarrow> TaskResult \<Rightarrow> (string \<times> TaskResult) list" where
  "storeResult results result = AList.update (TaskName result) result results"

text \<open>
  \<open>Engine.replaceVariables\<close>: the workflow variables first, then the output of every
  task whose stored result is a success.
\<close>

fun replaceOutputs :: "(string \<times> TaskResult) list \<Rightarrow> string \<Rightarrow> string" where
  "replaceOutputs [] result = result"
| "replaceOutputs ((taskName, taskResult) # results) result =
     replaceOutputs results
       (if Success taskResult
        then ReplaceAll result (''${'' @ taskName @ ''.output}'') (Output taskResult)
        else result)"

definition replaceVariables ::
  "Workflow \<Rightarrow> (string \<times> TaskResult) list \<Rightarrow> string \<Rightarrow> string" where
  "replaceVariables wfl results input =
     replaceOutputs results (Executor_replaceVariables (Variables wfl) input)"

text \<open>\<open>Engine.evaluateCondition\<close>. The cutset of \<open>Trim\<close> is the two quote characters.\<close>

definition quotes :: string where
  "quotes = [CHR 0x22, CHR 0x27]"

definition evaluateCondition ::
  "Workflow \<Rightarrow> (string \<times> TaskResult) list \<Rightarrow> string \<Rightarrow> bool" where
  "evaluateCondition wfl results condition0 =
     (let condition = replaceVariables wfl results condition0
      in if Contains condition ''=='' \<and> length (Split condition ''=='') = 2
         then TrimSpace (Split condition ''=='' ! 0)
                = TrimSpace (Trim (Split condition ''=='' ! 1) quotes)
         else if Contains condition ''!='' \<and> length (Split condition ''!='') = 2
         then TrimSpace (Split condition ''!='' ! 0)
                \<noteq> TrimSpace (Trim (Split condition ''!='' ! 1) quotes)
         else condition \<noteq> [] \<and> condition \<noteq> ''false'' \<and> condition \<noteq> ''0'')"

text \<open>
  The retry loop of \<open>executeTask\<close>:
  \<open>for attempt := 0; attempt < maxAttempts; attempt++\<close>, with the variable \<open>result\<close>
  (a pointer, \<open>nil\<close> before the first attempt) as an option. \<open>time.Sleep\<close> and
  \<open>fmt.Printf\<close> go to the log.
\<close>

function retryLoop ::
  "os \<Rightarrow> (string \<times> string) list \<Rightarrow> int option \<Rightarrow> Task \<Rightarrow> int \<Rightarrow> int \<Rightarrow> int
     \<Rightarrow> TaskResult option \<Rightarrow> event list \<Rightarrow> TaskResult option \<times> event list" where
  "retryLoop sys variables taskCtx task maxAttempts delay attempt result lg =
     (if attempt < maxAttempts
      then (case Execute sys variables taskCtx task
                   (if attempt > 0 \<and> delay > 0 then lg @ [Sleep delay] else lg) of
              (result', lg') \<Rightarrow>
                if Error result' = None then (Some result', lg')
                else retryLoop sys variables taskCtx task maxAttempts delay (attempt + 1)
                       (Some result')
                       (if attempt < maxAttempts - 1
                        then lg' @ [Printf (Name task) (attempt + 1) maxAttempts]
                        else lg'))
      else (result, lg))"
  by pat_completeness auto
termination
  by (relation "measure (\<lambda>(sys, variables, taskCtx, task, maxAttempts, delay, attempt,
                          result, lg). nat (maxAttempts - attempt))") auto

text \<open>
  \<open>Engine.executeTask\<close>: the condition, the context with the task's timeout, the
  number of attempts and the delay, then the retry loop.
\<close>

definition executeTask ::
  "os \<Rightarrow> Workflow \<Rightarrow> (string \<times> TaskResult) list \<Rightarrow> int option \<Rightarrow> Task \<Rightarrow> event list
     \<Rightarrow> TaskResult option \<times> event list" where
  "executeTask sys wfl results ctx task lg =
     (if Condition task \<noteq> [] \<and> \<not> evaluateCondition wfl results (Condition task)
      then (Some \<lparr>TaskName = Name task, Success = True, Error = None,
                  Output = ''Skipped due to condition''\<rparr>, lg)
      else (let taskCtx = (if Timeout task > 0 then Some (Timeout task) else ctx);
                maxAttempts = (if MaxAttempts (Retry task) > 0 then MaxAttempts (Retry task)
                               else 1);
                delay = (if MaxAttempts (Retry task) > 0 then Delay (Retry task) else 0)
            in retryLoop sys (Variables wfl) taskCtx task maxAttempts delay 0 None lg))"

text \<open>
  \<open>Engine.executeParallel\<close> starts one goroutine for each task and waits for all of
  them; the slot of each task holds its result. The goroutines do not write the
  result store (\<open>Run\<close> stores the results after the barrier), so each of them reads
  the store as it is when the batch starts. The model runs them one after another;
  since the answers of the outside are arbitrary, every combination of outcomes that
  some interleaving can produce is the outcome of this order for some \<^typ>\<open>os\<close>.
\<close>

fun executeParallel ::
  "os \<Rightarrow> Workflow \<Rightarrow> (string \<times> TaskResult) list \<Rightarrow> int option \<Rightarrow> Task list \<Rightarrow> event list
     \<Rightarrow> TaskResult option list \<times> event list" where
  "executeParallel sys wfl results ctx [] lg = ([], lg)"
| "executeParallel sys wfl results ctx (t # tasks) lg =
     (case executeTask sys wfl results ctx t lg of
        (result, lg') \<Rightarrow>
          (case executeParallel sys wfl results ctx tasks lg' of
             (rs, lg'') \<Rightarrow> (result # rs, lg'')))"

text \<open>
  \<open>Engine.dependenciesMet\<close>: the loop over \<open>task.DependsOn\<close> with its two early
  returns. \<open>executed\<close> is a \<open>map[string]bool\<close> that only ever receives \<open>true\<close>: the list
  of its keys, without repetition, so that \<open>len(executed)\<close> is its length.
\<close>

fun dependenciesMetLoop ::
  "(string \<times> TaskResult) list \<Rightarrow> string list \<Rightarrow> string list \<Rightarrow> bool" where
  "dependenciesMetLoop results [] executed = True"
| "dependenciesMetLoop results (dep # deps) executed =
     (if dep \<notin> set executed then False
      else (case map_of results dep of
              Some result \<Rightarrow>
                if \<not> Success result then False
                else dependenciesMetLoop results deps executed
            | None \<Rightarrow> dependenciesMetLoop results deps executed))"

definition dependenciesMet ::
  "(string \<times> TaskResult) list \<Rightarrow> Task \<Rightarrow> string list \<Rightarrow> bool" where
  "dependenciesMet results task executed =
     dependenciesMetLoop results (DependsOn task) executed"

text \<open>
  The state of \<open>Run\<close>: the engine's result store, the local variables \<open>executed\<close>
  and \<open>allResults\<close>, and the log. (\<open>taskMap\<close> is built and never read.)
\<close>

record run_state =
  results :: "(string \<times> TaskResult) list"
  executed :: "string list"
  allResults :: "TaskResult list"
  events :: "event list"

text \<open>
  The run-level errors of \<open>Run\<close>, one for each format string. \<open>NilDereference\<close> is
  not an error value: it stands for the run-time panic of reading \<open>result.TaskName\<close>
  through a \<open>nil\<close> pointer.
\<close>

datatype run_error =
    Deadlock "string list"
  | TaskFailed string "error option"
  | NilDereference

text \<open>
  The three statements that follow every execution in \<open>Run\<close>:
  \<open>allResults = append(allResults, result)\<close>, \<open>executed[result.TaskName] = true\<close>
  and \<open>e.storeResult(result)\<close>.
\<close>

definition recordResult :: "TaskResult \<Rightarrow> run_state \<Rightarrow> run_state" where
  "recordResult result st =
     st\<lparr>allResults := allResults st @ [result],
        executed := List.insert (TaskName result) (executed st),
        results := storeResult (results st) result\<rparr>"

text \<open>The loop over the results of the parallel batch.\<close>

fun recordParallel :: "TaskResult option list \<Rightarrow> run_state \<Rightarrow> run_state \<times> run_error option" where
  "recordParallel [] st = (st, None)"
| "recordParallel (None # rs) st = (st, Some NilDereference)"
| "recordParallel (Some result # rs) st = recordParallel rs (recordResult result st)"

text \<open>The loop over the sequential tasks, which returns from \<open>Run\<close> on a failure.\<close>

fun runSequential ::
  "os \<Rightarrow> Workflow \<Rightarrow> int option \<Rightarrow> Task list \<Rightarrow> run_state \<Rightarrow> run_state \<times> run_error option" where
  "runSequential sys wfl ctx [] st = (st, None)"
| "runSequential sys wfl ctx (task # tasks) st =
     (case executeTask sys wfl (results st) ctx task (events st) of
        (None, lg) \<Rightarrow> (st\<lparr>events := lg\<rparr>, Some NilDereference)
      | (Some result, lg) \<Rightarrow>
          (let st' = recordResult result (st\<lparr>events := lg\<rparr>)
           in if \<not> Success result \<and> \<not> ContinueOnError task
              then (st', Some (TaskFailed (Name task) (Error result)))
              else runSequential sys wfl ctx tasks st'))"

text \<open>The ready tasks of a round, and the names listed by the deadlock error.\<close>

definition readyTasks :: "Workflow \<Rightarrow> run_state \<Rightarrow> Task list" where
  "readyTasks wfl st =
     filter (\<lambda>task. Name task \<notin> set (executed st)
                    \<and> dependenciesMet (results st) task (executed st)) (Tasks wfl)"

definition unexecuted :: "Workflow \<Rightarrow> run_state \<Rightarrow> string list" where
  "unexecuted wfl st =
     map Name (filter (\<lambda>task. Name task \<notin> set (executed st)) (Tasks wfl))"

text \<open>
  The parallel batch of a round, \<open>if len(parallelTasks) > 0 { \<dots> }\<close>: the tasks
  are executed, then their results are recorded in the order of the tasks.
\<close>

definition runParallel ::
  "os \<Rightarrow> Workflow \<Rightarrow> int option \<Rightarrow> Task list \<Rightarrow> run_state \<Rightarrow> run_state \<times> run_error option" where
  "runParallel sys wfl ctx parallelTasks st =
     (if parallelTasks \<noteq> []
      then (case executeParallel sys wfl (results st) ctx parallelTasks (events st) of
              (rs, lg) \<Rightarrow> recordParallel rs (st\<lparr>events := lg\<rparr>))
      else (st, None))"

text \<open>
  One round of \<open>Run\<close> after the ready tasks are found not to be empty: the
  parallel batch, then the sequential tasks.
\<close>

definition runRound ::
  "os \<Rightarrow> Workflow \<Rightarrow> int option \<Rightarrow> Task list \<Rightarrow> run_state \<Rightarrow> run_state \<times> run_error option" where
  "runRound sys wfl ctx ready st =
     (let parallelTasks = filter Parallel ready;
          sequentialTasks = filter (\<lambda>task. \<not> Parallel task) ready
      in case runParallel sys wfl ctx parallelTasks st of
           (st', Some err) \<Rightarrow> (st', Some err)
         | (st', None) \<Rightarrow> runSequential sys wfl ctx sequentialTasks st')"

section \<open>Every execution returns a result for its task\<close>

declare retryLoop.simps [simp del]

lemma Execute_TaskName: "Execute sys vars ctx task lg = (r, lg') \<Longrightarrow> TaskName r = Name task"
  by (auto simp: Execute_def split: prod.splits)

lemma Execute_Error_Success: "Execute sys vars ctx task lg = (r, lg') \<Longrightarrow> (Error r = None) = Success r"
  by (auto simp: Execute_def split: prod.splits)

lemma retryLoop_done:
  "\<not> attempt < maxAttempts \<Longrightarrow>
   retryLoop sys vars ctx task maxAttempts delay attempt result lg = (result, lg)"
  by (subst retryLoop.simps) simp

lemma retryLoop_success:
  "attempt < maxAttempts \<Longrightarrow>
   Execute sys vars ctx task (if attempt > 0 \<and> delay > 0 then lg @ [Sleep delay] else lg) = (r, lg') \<Longrightarrow>
   Error r = None \<Longrightarrow>
   retryLoop sys vars ctx task maxAttempts delay attempt result lg = (Some r, lg')"
  by (subst retryLoop.simps) simp

lemma retryLoop_failure:
  "attempt < maxAttempts \<Longrightarrow>
   Execute sys vars ctx task (if attempt > 0 \<and> delay > 0 then lg @ [Sleep delay] else lg) = (r, lg') \<Longrightarrow>
   Error r \<noteq> None \<Longrightarrow>
   retryLoop sys vars ctx task maxAttempts delay attempt result lg =
   retryLoop sys vars ctx task maxAttempts delay (attempt + 1) (Some r)
     (if attempt < maxAttempts - 1 then lg' @ [Printf (Name task) (attempt + 1) maxAttempts] else lg')"
  by (subst retryLoop.simps) auto

lemma retryLoop_Some:
  "retryLoop sys vars ctx task maxAttempts delay attempt result lg = (res, lg') \<Longrightarrow>
   attempt < maxAttempts \<or> (\<exists>r. result = Some r \<and> TaskName r = Name task \<and> (Error r = None) = Success r) \<Longrightarrow>
   \<exists>r. res = Some r \<and> TaskName r = Name task \<and> (Error r = None) = Success r"
proof (induction sys vars ctx task maxAttempts delay attempt result lg rule: retryLoop.induct)
  case (1 sys variables taskCtx task maxAttempts delay attempt result lg)
  show ?case
  proof (cases "attempt < maxAttempts")
    case False
    with "1.prems" show ?thesis by (simp add: retryLoop_done)
  next
    case True
    obtain r1 lg1 where ex: "Execute sys variables taskCtx task
                   (if attempt > 0 \<and> delay > 0 then lg @ [Sleep delay] else lg) = (r1, lg1)"
      by (cases "Execute sys variables taskCtx task
                   (if attempt > 0 \<and> delay > 0 then lg @ [Sleep delay] else lg)") 
    note tn = Execute_TaskName [OF ex] Execute_Error_Success [OF ex]
    show ?thesis
    proof (cases "Error r1 = None")
      case e: True
      from "1.prems"(1) have "res = Some r1"
        unfolding retryLoop_success [OF True ex e] by simp
      with tn show ?thesis by simp
    next
      case False
      from "1.prems"(1)
      have "retryLoop sys variables taskCtx task maxAttempts delay (attempt + 1)
                       (Some r1)
                       (if attempt < maxAttempts - 1
                        then lg1 @ [Printf (Name task) (attempt + 1) maxAttempts]
                        else lg1) = (res, lg')"
        unfolding retryLoop_failure [OF True ex False] .
      from "1.IH" [OF True ex [symmetric] False this] tn show ?thesis by simp
    qed
  qed
qed

lemma executeTask_skip:
  "Condition task \<noteq> [] \<Longrightarrow> \<not> evaluateCondition wfl res (Condition task) \<Longrightarrow>
   executeTask sys wfl res ctx task lg =
     (Some \<lparr>TaskName = Name task, Success = True, Error = None,
            Output = ''Skipped due to condition''\<rparr>, lg)"
  unfolding executeTask_def by simp

lemma executeTask_run:
  "Condition task = [] \<or> evaluateCondition wfl res (Condition task) \<Longrightarrow>
   executeTask sys wfl res ctx task lg =
     retryLoop sys (Variables wfl) (if Timeout task > 0 then Some (Timeout task) else ctx) task
       (if MaxAttempts (Retry task) > 0 then MaxAttempts (Retry task) else 1)
       (if MaxAttempts (Retry task) > 0 then Delay (Retry task) else 0) 0 None lg"
  unfolding executeTask_def Let_def by auto

lemma executeTask_Some:
  "\<exists>r lg'. executeTask sys wfl res ctx task lg = (Some r, lg') \<and> TaskName r = Name task \<and> (Error r = None) = Success r"
proof (cases "Condition task \<noteq> [] \<and> \<not> evaluateCondition wfl res (Condition task)")
  case True
  then show ?thesis by (simp add: executeTask_skip)
next
  case False
  then have run: "Condition task = [] \<or> evaluateCondition wfl res (Condition task)" by blast
  obtain x lg' where c: "executeTask sys wfl res ctx task lg = (x, lg')"
    by (cases "executeTask sys wfl res ctx task lg")
  have "\<exists>r. x = Some r \<and> TaskName r = Name task \<and> (Error r = None) = Success r"
  proof (rule retryLoop_Some)
    show "retryLoop sys (Variables wfl) (if Timeout task > 0 then Some (Timeout task) else ctx) task
       (if MaxAttempts (Retry task) > 0 then MaxAttempts (Retry task) else 1)
       (if MaxAttempts (Retry task) > 0 then Delay (Retry task) else 0) 0 None lg = (x, lg')"
      using c unfolding executeTask_run [OF run] .
    show "0 < (if MaxAttempts (Retry task) > 0 then MaxAttempts (Retry task) else 1) \<or>
          (\<exists>r. None = Some r \<and> TaskName r = Name task \<and> (Error r = None) = Success r)"
      by simp
  qed
  with c show ?thesis by auto
qed


section \<open>Every round without an error marks a new task as executed\<close>

lemma recordResult_simps [simp]:
  "allResults (recordResult r st) = allResults st @ [r]"
  "executed (recordResult r st) = List.insert (TaskName r) (executed st)"
  "results (recordResult r st) = storeResult (results st) r"
  "events (recordResult r st) = events st"
  by (simp_all add: recordResult_def)

lemma length_insert_le: "length xs \<le> length (List.insert x xs)"
  by (simp add: List.insert_def)

lemma length_insert_new: "x \<notin> set xs \<Longrightarrow> length (List.insert x xs) = Suc (length xs)"
  by (simp add: List.insert_def)

lemma recordParallel_mono:
  "recordParallel rs st = (st', err) \<Longrightarrow>
   set (executed st) \<subseteq> set (executed st') \<and> length (executed st) \<le> length (executed st')"
proof (induction rs st rule: recordParallel.induct)
  case (3 result rs st)
  from "3.prems" have "recordParallel rs (recordResult result st) = (st', err)" by simp
  from "3.IH" [OF this] length_insert_le [of "executed st" "TaskName result"]
  show ?case by auto
qed auto

lemma executeParallel_length:
  "executeParallel sys wfl res ctx ts lg = (rs, lg') \<Longrightarrow> length rs = length ts"
  by (induction ts arbitrary: lg rs) (auto split: prod.splits)

lemma executeParallel_Cons:
  "\<exists>r rs lg'. executeParallel sys wfl res ctx (t # ts) lg = (Some r # rs, lg') \<and> TaskName r = Name t"
proof -
  obtain r lg1 where e: "executeTask sys wfl res ctx t lg = (Some r, lg1)" "TaskName r = Name t"
    using executeTask_Some by blast
  then show ?thesis by (auto split: prod.splits)
qed

lemma runSequential_mono:
  "runSequential sys wfl ctx ts st = (st', err) \<Longrightarrow>
   set (executed st) \<subseteq> set (executed st') \<and> length (executed st) \<le> length (executed st')"
proof (induction ts arbitrary: st)
  case Nil
  then show ?case by simp
next
  case (Cons t ts)
  obtain r lg1 where e: "executeTask sys wfl (results st) ctx t (events st) = (Some r, lg1)"
    using executeTask_Some by blast
  show ?case
  proof (cases "\<not> Success r \<and> \<not> ContinueOnError t")
    case True
    with Cons.prems e length_insert_le [of "executed st" "TaskName r"] show ?thesis by auto
  next
    case False
    with Cons.prems e have "runSequential sys wfl ctx ts (recordResult r (st\<lparr>events := lg1\<rparr>)) = (st', err)"
      by (auto simp: Let_def)
    from Cons.IH [OF this] length_insert_le [of "executed st" "TaskName r"] show ?thesis by auto
  qed
qed

lemma runRound_grows:
  assumes "runRound sys wfl ctx ready st = (st', None)"
    and "ready \<noteq> []" and "\<forall>t\<in>set ready. Name t \<notin> set (executed st)"
  shows "length (executed st) < length (executed st')"
proof (cases "filter Parallel ready")
  case Nil
  then have seq: "filter (\<lambda>t. \<not> Parallel t) ready = ready"
    by (simp add: filter_empty_conv)
  obtain t ts where r: "ready = t # ts" using assms(2) by (cases ready) auto
  obtain res lg1 where e: "executeTask sys wfl (results st) ctx t (events st) = (Some res, lg1)"
     "TaskName res = Name t"
    using executeTask_Some by blast
  from assms(1) Nil seq r e
  have "runSequential sys wfl ctx ts (recordResult res (st\<lparr>events := lg1\<rparr>)) = (st', None)"
    by (auto simp: runRound_def runParallel_def Let_def split: if_splits)
  from runSequential_mono [OF this] e(2) assms(3) r length_insert_new [of "Name t" "executed st"]
  show ?thesis by auto
next
  case (Cons t ts)
  then have "t \<in> set (filter Parallel ready)" by simp
  then have "t \<in> set ready" by simp
  obtain res rs lg1 where e:
    "executeParallel sys wfl (results st) ctx (t # ts) (events st) = (Some res # rs, lg1)"
    "TaskName res = Name t"
    using executeParallel_Cons by blast
  obtain st1 err1 where p: "recordParallel rs (recordResult res (st\<lparr>events := lg1\<rparr>)) = (st1, err1)"
    by (cases "recordParallel rs (recordResult res (st\<lparr>events := lg1\<rparr>))")
  from assms(1) Cons e p have err1: "err1 = None" 
    and s: "runSequential sys wfl ctx (filter (\<lambda>t. \<not> Parallel t) ready) st1 = (st', None)"
    by (auto simp: runRound_def runParallel_def Let_def split: option.splits)
  from recordParallel_mono [OF p] runSequential_mono [OF s] e(2) assms(3) \<open>t \<in> set ready\<close>
    length_insert_new [of "Name t" "executed st"]
  show ?thesis by auto
qed


section \<open>Run\<close>

text \<open>
  The loop of \<open>Run\<close>: \<open>for len(executed) < len(e.workflow.Tasks)\<close>. It ends with
  the deadlock error when no task is ready, with the error of a round, or, once the
  condition fails, without an error.
\<close>

function runLoop ::
  "os \<Rightarrow> Workflow \<Rightarrow> int option \<Rightarrow> run_state \<Rightarrow> run_state \<times> run_error option" where
  "runLoop sys wfl ctx st =
     (if length (executed st) < length (Tasks wfl)
      then (if readyTasks wfl st = []
            then (if length (executed st) < length (Tasks wfl)
                  then (st, Some (Deadlock (unexecuted wfl st)))
                  else (st, None))
            else (case runRound sys wfl ctx (readyTasks wfl st) st of
                    (st', Some err) \<Rightarrow> (st', Some err)
                  | (st', None) \<Rightarrow> runLoop sys wfl ctx st'))
      else (st, None))"
  by pat_completeness auto
termination
proof (relation "measure (\<lambda>(sys, wfl, ctx, st). length (Tasks wfl) - length (executed st))")
  show "wf (measure (\<lambda>(sys, wfl, ctx, st). length (Tasks wfl) - length (executed st)))"
    by simp
next
  fix sys wfl ctx st st' and err :: "run_error option"
  assume guard: "length (executed st) < length (Tasks wfl)"
    and ready: "readyTasks wfl st \<noteq> []"
    and r: "(st', err) = runRound sys wfl ctx (readyTasks wfl st) st" and none: "err = None"
  from r none have round: "runRound sys wfl ctx (readyTasks wfl st) st = (st', None)"
    by simp
  have "\<forall>t\<in>set (readyTasks wfl st). Name t \<notin> set (executed st)"
    by (simp add: readyTasks_def)
  with round ready have "length (executed st) < length (executed st')"
    by (rule runRound_grows)
  with guard
  show "((sys, wfl, ctx, st'), (sys, wfl, ctx, st))
          \<in> measure (\<lambda>(sys, wfl, ctx, st). length (Tasks wfl) - length (executed st))"
    by simp
qed

declare runLoop.simps [simp del]

text \<open>
  \<open>Run\<close> on an engine whose result store is \<open>results0\<close> (empty after \<open>NewEngine\<close>),
  with the log \<open>lg\<close> of what happened before: the state in which its loop ends and
  its error, and the two values it returns.
\<close>

definition runFrom ::
  "os \<Rightarrow> Workflow \<Rightarrow> (string \<times> TaskResult) list \<Rightarrow> int option \<Rightarrow> event list
     \<Rightarrow> run_state \<times> run_error option" where
  "runFrom sys wfl results0 ctx lg =
     runLoop sys wfl ctx \<lparr>results = results0, executed = [], allResults = [], events = lg\<rparr>"

definition Run ::
  "os \<Rightarrow> Workflow \<Rightarrow> (string \<times> TaskResult) list \<Rightarrow> int option \<Rightarrow> event list
     \<Rightarrow> TaskResult list \<times> run_error option" where
  "Run sys wfl results0 ctx lg =
     (case runFrom sys wfl results0 ctx lg of (st, err) \<Rightarrow> (allResults st, err))"

section \<open>Concrete inputs\<close>

text \<open>
  The zero value of \<open>Task\<close>, an outside in which every request succeeds with an
  empty answer, and a workflow given by its variables and tasks: the concrete runs
  below are built from them.
\<close>

definition zeroTask :: Task where
  "zeroTask =
     \<lparr>Name = [], Type = [], Command = [], Script = [], URL = [], Method = [], Headers = [],
      Body = [], FilePath = [], FileContent = [], FileAction = [], SourcePath = [],
      DestPath = [], DependsOn = [], Condition = [],
      Retry = \<lparr>MaxAttempts = 0, Delay = 0\<rparr>, Timeout = 0, ContinueOnError = False,
      Parallel = False\<rparr>"

definition quietOS :: os where
  "quietOS =
     \<lparr>GOOS = ''linux'',
      cmd_Run = (\<lambda>lg ctx command. ([], [], None)),
      NewRequest = (\<lambda>method url. None),
      client_Do = (\<lambda>lg ctx method url body headers. Response 200 (Inr [])),
      os_ReadFile = (\<lambda>lg path. Inr []),
      os_WriteFile = (\<lambda>lg path content. None),
      os_Remove = (\<lambda>lg path. None)\<rparr>"

definition workflowOf :: "(string \<times> string) list \<Rightarrow> Task list \<Rightarrow> Workflow" where
  "workflowOf variables tasks =
     \<lparr>WorkflowName = [], Description = [], Variables = variables, Tasks = tasks\<rparr>"

section \<open>The result of an execution\<close>

lemma Execute_unknown:
  "Type task \<noteq> ''shell'' \<Longrightarrow> Type task \<noteq> ''http'' \<Longrightarrow> Type task \<noteq> ''file'' \<Longrightarrow>
   Execute sys vars ctx task lg =
     (\<lparr>TaskName = Name task, Success = False, Error = Some (UnknownTaskType (Type task)),
       Output = []\<rparr>, lg)"
  by (simp add: Execute_def)

text \<open>
  Claim C9. Every result that \<open>Executor.Execute\<close> builds, and every result that
  \<open>executeTask\<close> returns (it always returns one), carries an error exactly when its
  success flag is false. This covers the skipped task, whose result has no error and
  is a success, and the unknown task type and file action, which are errors.
\<close>

theorem C9_error_iff_not_success:
  "(Execute sys variables ctx task lg = (r, lg') \<longrightarrow> (Error r \<noteq> None) = (\<not> Success r)) \<and>
   (\<exists>r' lg''. executeTask sys wfl res ctx task lg = (Some r', lg'') \<and>
               (Error r' \<noteq> None) = (\<not> Success r'))"
proof
  show "Execute sys variables ctx task lg = (r, lg') \<longrightarrow> (Error r \<noteq> None) = (\<not> Success r)"
    using Execute_Error_Success [of sys variables ctx task lg r lg'] by auto
  show "\<exists>r' lg''. executeTask sys wfl res ctx task lg = (Some r', lg'') \<and>
               (Error r' \<noteq> None) = (\<not> Success r')"
    using executeTask_Some [of sys wfl res ctx task lg] by auto
qed

theorem C9_error_iff_not_success_witness:
  "Execute quietOS [] None (zeroTask\<lparr>Name := ''a'', Type := ''mail''\<rparr>) []
     = (\<lparr>TaskName = ''a'', Success = False, Error = Some (UnknownTaskType ''mail''),
         Output = []\<rparr>, []) \<and>
   (Error \<lparr>TaskName = ''a'', Success = False, Error = Some (UnknownTaskType ''mail''),
           Output = []\<rparr> \<noteq> None)
     = (\<not> Success \<lparr>TaskName = ''a'', Success = False, Error = Some (UnknownTaskType ''mail''),
                    Output = []\<rparr>)"
proof -
  have e: "Execute quietOS [] None (zeroTask\<lparr>Name := ''a'', Type := ''mail''\<rparr>) []
     = (\<lparr>TaskName = ''a'', Success = False, Error = Some (UnknownTaskType ''mail''),
         Output = []\<rparr>, [])"
    by (simp add: Execute_unknown zeroTask_def)
  from C9_error_iff_not_success
         [of quietOS "[]" None "zeroTask\<lparr>Name := ''a'', Type := ''mail''\<rparr>" "[]",
          THEN conjunct1, THEN mp, OF e]
  have "(Error \<lparr>TaskName = ''a'', Success = False, Error = Some (UnknownTaskType ''mail''),
           Output = []\<rparr> \<noteq> None)
     = (\<not> Success \<lparr>TaskName = ''a'', Success = False, Error = Some (UnknownTaskType ''mail''),
                    Output = []\<rparr>)" .
  with e show ?thesis by (rule conjI)
qed

section \<open>Conditions and skipped tasks\<close>

lemma dependenciesMetLoop_iff:
  "dependenciesMetLoop res deps ex =
     (\<forall>d\<in>set deps. d \<in> set ex \<and> (\<forall>r. map_of res d = Some r \<longrightarrow> Success r))"
  by (induction deps) (auto split: option.splits)

lemma map_of_storeResult:
  "map_of (storeResult res r) = (map_of res)(TaskName r \<mapsto> r)"
  by (simp add: storeResult_def update_conv')

lemma Execute_log:
  "Execute sys vars ctx task lg = (r, lg') \<Longrightarrow>
   \<exists>evs. lg' = lg @ evs \<and> (Success r \<longrightarrow> evs \<noteq> [])"
  by (auto simp: Execute_def executeShell_def executeHTTP_def executeFile_def fileRead_def
        fileWrite_def fileDelete_def fileCopy_def Let_def
      split: if_splits prod.splits option.splits sum.splits http_response.splits)

lemma retryLoop_log:
  "retryLoop sys vars ctx task maxAttempts delay attempt result lg = (Some r, lg') \<Longrightarrow>
   attempt < maxAttempts \<Longrightarrow>
   \<exists>evs. lg' = lg @ evs \<and> (Success r \<longrightarrow> evs \<noteq> [])"
proof (induction sys vars ctx task maxAttempts delay attempt result lg rule: retryLoop.induct)
  case (1 sys variables taskCtx task maxAttempts delay attempt result lg)
  let ?lg1 = "if attempt > 0 \<and> delay > 0 then lg @ [Sleep delay] else lg"
  obtain r1 lg1 where ex: "Execute sys variables taskCtx task ?lg1 = (r1, lg1)"
    by (cases "Execute sys variables taskCtx task ?lg1")
  from Execute_log [OF ex] obtain evs1 where evs1: "lg1 = ?lg1 @ evs1" "Success r1 \<longrightarrow> evs1 \<noteq> []"
    by blast
  note es = Execute_Error_Success [OF ex]
  show ?case
  proof (cases "Error r1 = None")
    case True
    from "1.prems"(1) have "r = r1" "lg' = lg1"
      unfolding retryLoop_success [OF "1.prems"(2) ex True] by simp_all
    with evs1 show ?thesis by auto
  next
    case False
    let ?lg2 = "if attempt < maxAttempts - 1
                then lg1 @ [Printf (Name task) (attempt + 1) maxAttempts] else lg1"
    from "1.prems"(1)
    have rec: "retryLoop sys variables taskCtx task maxAttempts delay (attempt + 1) (Some r1) ?lg2
                 = (Some r, lg')"
      unfolding retryLoop_failure [OF "1.prems"(2) ex False] .
    show ?thesis
    proof (cases "attempt + 1 < maxAttempts")
      case True
      from "1.IH" [OF "1.prems"(2) ex [symmetric] False rec True]
      obtain evs where "lg' = ?lg2 @ evs" "Success r \<longrightarrow> evs \<noteq> []" by blast
      with evs1 show ?thesis by auto
    next
      case f: False
      from rec have "r = r1" "lg' = ?lg2"
        unfolding retryLoop_done [OF f] by simp_all
      with evs1 es False show ?thesis by auto
    qed
  qed
qed


lemma evaluateCondition_empty: "evaluateCondition wfl res [] = False"
proof -
  have a: "Executor_replaceVariables vs [] = []" for vs
    by (induction vs) auto
  have b: "replaceOutputs rs [] = []" for rs
    by (induction rs) auto
  show ?thesis by (simp add: evaluateCondition_def replaceVariables_def a b)
qed

text \<open>
  Claim C8. A task whose condition is not empty and evaluates to false is not run:
  \<open>executeTask\<close> returns at once the success result with the output
  \<open>Skipped due to condition\<close>, whatever the outside is, and the log is unchanged (no
  backend was called, nothing slept or printed). Once \<open>Run\<close> has recorded this result,
  the task counts as executed and successful: every task whose other dependencies are
  met has its dependencies met, and is ready if it was not executed itself.
\<close>

theorem C8_false_condition_skips:
  assumes "Condition task \<noteq> []"
    and "\<not> evaluateCondition wfl (results st) (Condition task)"
    and "r = \<lparr>TaskName = Name task, Success = True, Error = None,
              Output = ''Skipped due to condition''\<rparr>"
    and "st' = recordResult r st"
  shows "executeTask sys wfl (results st) ctx task (events st) = (Some r, events st) \<and>
         Name task \<in> set (executed st') \<and>
         map_of (results st') (Name task) = Some r \<and>
         (\<forall>B::Task. (\<forall>d\<in>set (DependsOn B). d = Name task \<or>
                   (d \<in> set (executed st) \<and> (\<forall>r'. map_of (results st) d = Some r' \<longrightarrow> Success r')))
              \<longrightarrow> dependenciesMet (results st') B (executed st') \<and>
                  (B \<in> set (Tasks wfl) \<and> Name B \<notin> set (executed st')
                     \<longrightarrow> B \<in> set (readyTasks wfl st')))"
proof (intro conjI allI impI)
  show "executeTask sys wfl (results st) ctx task (events st) = (Some r, events st)"
    using assms(1-3) by (simp add: executeTask_skip)
  show "Name task \<in> set (executed st')"
    using assms(3,4) by simp
  show "map_of (results st') (Name task) = Some r"
    using assms(3,4) by (simp add: map_of_storeResult)
next
  fix B :: Task
  assume deps: "\<forall>d\<in>set (DependsOn B). d = Name task \<or>
                   (d \<in> set (executed st) \<and> (\<forall>r'. map_of (results st) d = Some r' \<longrightarrow> Success r'))"
  with assms(3,4) show met: "dependenciesMet (results st') B (executed st')"
    by (auto simp: dependenciesMet_def dependenciesMetLoop_iff map_of_storeResult)
  assume "B \<in> set (Tasks wfl) \<and> Name B \<notin> set (executed st')"
  with met show "B \<in> set (readyTasks wfl st')"
    by (simp add: readyTasks_def)
qed

text \<open>
  Claim C10. The empty condition evaluates to false, and yet a task with an empty
  condition is executed: \<open>executeTask\<close> goes to the retry loop without consulting
  the evaluator. A skip, that is a success that leaves the log unchanged, only comes
  from a condition that is not empty and evaluates to false.
\<close>

theorem C10_empty_condition_executes:
  "evaluateCondition wfl res [] = False \<and>
   (Condition task = [] \<longrightarrow>
      executeTask sys wfl res ctx task lg =
        retryLoop sys (Variables wfl) (if Timeout task > 0 then Some (Timeout task) else ctx) task
          (if MaxAttempts (Retry task) > 0 then MaxAttempts (Retry task) else 1)
          (if MaxAttempts (Retry task) > 0 then Delay (Retry task) else 0) 0 None lg) \<and>
   (executeTask sys wfl res ctx task lg = (Some r, lg) \<and> Success r \<longrightarrow>
      Condition task \<noteq> [] \<and> \<not> evaluateCondition wfl res (Condition task) \<and>
      r = \<lparr>TaskName = Name task, Success = True, Error = None,
           Output = ''Skipped due to condition''\<rparr>)"
proof (intro conjI impI)
  show "evaluateCondition wfl res [] = False" by (rule evaluateCondition_empty)
  show "executeTask sys wfl res ctx task lg =
        retryLoop sys (Variables wfl) (if Timeout task > 0 then Some (Timeout task) else ctx) task
          (if MaxAttempts (Retry task) > 0 then MaxAttempts (Retry task) else 1)
          (if MaxAttempts (Retry task) > 0 then Delay (Retry task) else 0) 0 None lg"
    if "Condition task = []" using that by (simp add: executeTask_run)
next
  assume a: "executeTask sys wfl res ctx task lg = (Some r, lg) \<and> Success r"
  have skip: "Condition task \<noteq> [] \<and> \<not> evaluateCondition wfl res (Condition task)"
  proof (rule ccontr)
    assume "\<not> (Condition task \<noteq> [] \<and> \<not> evaluateCondition wfl res (Condition task))"
    then have run: "Condition task = [] \<or> evaluateCondition wfl res (Condition task)" by blast
    from a have "retryLoop sys (Variables wfl) (if Timeout task > 0 then Some (Timeout task) else ctx) task
          (if MaxAttempts (Retry task) > 0 then MaxAttempts (Retry task) else 1)
          (if MaxAttempts (Retry task) > 0 then Delay (Retry task) else 0) 0 None lg = (Some r, lg)"
      unfolding executeTask_run [OF run] by simp
    moreover have "0 < (if MaxAttempts (Retry task) > 0 then MaxAttempts (Retry task) else 1)"
      by simp
    ultimately have "\<exists>evs. lg = lg @ evs \<and> (Success r \<longrightarrow> evs \<noteq> [])"
      by (rule retryLoop_log)
    with a show False by simp
  qed
  then show "Condition task \<noteq> []" and "\<not> evaluateCondition wfl res (Condition task)"
    by simp_all
  from skip a show "r = \<lparr>TaskName = Name task, Success = True, Error = None,
           Output = ''Skipped due to condition''\<rparr>"
    by (simp add: executeTask_skip)
qed


theorem C8_false_condition_skips_witness:
  "executeTask quietOS
     (workflowOf [] [zeroTask\<lparr>Name := ''a'', Condition := ''0''\<rparr>,
                     zeroTask\<lparr>Name := ''b'', DependsOn := [''a'']\<rparr>])
     [] None (zeroTask\<lparr>Name := ''a'', Condition := ''0''\<rparr>) []
     = (Some \<lparr>TaskName = ''a'', Success = True, Error = None,
              Output = ''Skipped due to condition''\<rparr>, []) \<and>
   zeroTask\<lparr>Name := ''b'', DependsOn := [''a'']\<rparr>
     \<in> set (readyTasks
              (workflowOf [] [zeroTask\<lparr>Name := ''a'', Condition := ''0''\<rparr>,
                              zeroTask\<lparr>Name := ''b'', DependsOn := [''a'']\<rparr>])
              (recordResult \<lparr>TaskName = ''a'', Success = True, Error = None,
                             Output = ''Skipped due to condition''\<rparr>
                 \<lparr>results = [], executed = [], allResults = [], events = []\<rparr>))"
proof -
  let ?a = "zeroTask\<lparr>Name := ''a'', Condition := ''0''\<rparr>"
  let ?b = "zeroTask\<lparr>Name := ''b'', DependsOn := [''a'']\<rparr>"
  let ?W = "workflowOf [] [?a, ?b]"
  let ?r = "\<lparr>TaskName = ''a'', Success = True, Error = None,
             Output = ''Skipped due to condition''\<rparr>"
  let ?st = "\<lparr>results = [], executed = [], allResults = [], events = []\<rparr>"
  have c1: "Condition ?a \<noteq> []" by simp
  have c2: "\<not> evaluateCondition ?W (results ?st) (Condition ?a)"
    by (simp add: evaluateCondition_def replaceVariables_def workflowOf_def)
  have c3: "?r = \<lparr>TaskName = Name ?a, Success = True, Error = None,
                   Output = ''Skipped due to condition''\<rparr>" by simp
  note t = C8_false_condition_skips [of ?a ?W ?st ?r "recordResult ?r ?st" quietOS None,
             OF c1 c2 c3 refl]
  from t have e: "executeTask quietOS ?W [] None ?a [] = (Some ?r, [])" by simp
  from t have "\<forall>B::Task. (\<forall>d\<in>set (DependsOn B). d = Name ?a \<or>
                   (d \<in> set (executed ?st) \<and> (\<forall>r'. map_of (results ?st) d = Some r' \<longrightarrow> Success r')))
              \<longrightarrow> dependenciesMet (results (recordResult ?r ?st)) B (executed (recordResult ?r ?st)) \<and>
                  (B \<in> set (Tasks ?W) \<and> Name B \<notin> set (executed (recordResult ?r ?st))
                     \<longrightarrow> B \<in> set (readyTasks ?W (recordResult ?r ?st)))"
    by blast
  then have "(\<forall>d\<in>set (DependsOn ?b). d = Name ?a \<or>
                   (d \<in> set (executed ?st) \<and> (\<forall>r'. map_of (results ?st) d = Some r' \<longrightarrow> Success r')))
              \<longrightarrow> dependenciesMet (results (recordResult ?r ?st)) ?b (executed (recordResult ?r ?st)) \<and>
                  (?b \<in> set (Tasks ?W) \<and> Name ?b \<notin> set (executed (recordResult ?r ?st))
                     \<longrightarrow> ?b \<in> set (readyTasks ?W (recordResult ?r ?st)))"
    by (rule spec)
  then have "?b \<in> set (readyTasks ?W (recordResult ?r ?st))"
    by (simp add: workflowOf_def)
  with e show ?thesis by (rule conjI)
qed

theorem C10_empty_condition_executes_witness:
  "evaluateCondition (workflowOf [] []) [] [] = False \<and>
   executeTask quietOS (workflowOf [] []) [] None (zeroTask\<lparr>Name := ''a'', Type := ''shell''\<rparr>) []
     = retryLoop quietOS [] None (zeroTask\<lparr>Name := ''a'', Type := ''shell''\<rparr>) 1 0 0 None []"
proof -
  let ?a = "zeroTask\<lparr>Name := ''a'', Type := ''shell''\<rparr>"
  note t = C10_empty_condition_executes [of "workflowOf [] []" "[]" ?a quietOS None "[]"]
  have c: "Condition ?a = []" by (simp add: zeroTask_def)
  from t have "evaluateCondition (workflowOf [] []) [] [] = False" by (rule conjunct1)
  moreover from t [THEN conjunct2, THEN conjunct1, THEN mp, OF c]
  have "executeTask quietOS (workflowOf [] []) [] None ?a []
     = retryLoop quietOS [] None ?a 1 0 0 None []"
    by (simp add: zeroTask_def workflowOf_def)
  ultimately show ?thesis by (rule conjI)
qed

section \<open>The condition evaluator\<close>

lemma Split_not_Nil: "Split s sep \<noteq> []"
  by (induction s sep rule: Split.induct) (auto split: list.splits)

lemma Contains_Split: "sep \<noteq> [] \<Longrightarrow> Contains s sep = (1 < length (Split s sep))"
proof (induction s sep rule: Split.induct)
  case (1 sep)
  then show ?case by simp
next
  case (2 c cs sep)
  show ?case
  proof (cases "prefix sep (c # cs)")
    case True
    with "2.prems" Split_not_Nil [of "drop (length sep - 1) cs" sep] show ?thesis
      by (cases "Split (drop (length sep - 1) cs) sep") auto
  next
    case False
    with "2.prems" "2.IH"(2) Split_not_Nil [of cs sep] show ?thesis
      by (cases "Split cs sep") auto
  qed
qed

lemma Split_single: "sep \<noteq> [] \<Longrightarrow> Split s sep = [r] \<Longrightarrow> s = r"
proof (induction s sep arbitrary: r rule: Split.induct)
  case (1 sep)
  then show ?case by simp
next
  case (2 c cs sep)
  show ?case
  proof (cases "prefix sep (c # cs)")
    case True
    with "2.prems" Split_not_Nil [of "drop (length sep - 1) cs" sep] show ?thesis by simp
  next
    case False
    with "2.prems" Split_not_Nil [of cs sep] obtain p where p: "Split cs sep = [p]" "r = c # p"
      by (cases "Split cs sep") (auto split: list.splits)
    from "2.IH"(2) [OF _ "2.prems"(1) p(1)] False "2.prems"(1) p(2) show ?thesis by simp
  qed
qed

lemma Split_pair: "sep \<noteq> [] \<Longrightarrow> Split s sep = [l, r] \<Longrightarrow> s = l @ sep @ r"
proof (induction s sep arbitrary: l rule: Split.induct)
  case (1 sep)
  then show ?case by simp
next
  case (2 c cs sep)
  show ?case
  proof (cases "prefix sep (c # cs)")
    case True
    with "2.prems" have l: "l = []" and t: "Split (drop (length sep - 1) cs) sep = [r]"
      by simp_all
    from Split_single [OF "2.prems"(1) t] have "drop (length sep - 1) cs = r" .
    moreover from "2.prems"(1) have "drop (length sep) (c # cs) = drop (length sep - 1) cs"
      by (cases sep) simp_all
    moreover from True have "c # cs = sep @ drop (length sep) (c # cs)"
      by (metis append_eq_conv_conj prefixE)
    ultimately show ?thesis using l by simp
  next
    case False
    with "2.prems" Split_not_Nil [of cs sep] obtain p where p: "Split cs sep = [p, r]" "l = c # p"
      by (cases "Split cs sep") (auto split: list.splits)
    from "2.IH"(2) [OF _ "2.prems"(1) p(1)] False "2.prems"(1) p(2) show ?thesis by simp
  qed
qed


text \<open>
  The spec's reading of the split, for comparison with the code: "split on the first
  occurrence into left/right". \<open>splitFirst\<close> follows these words (it is what
  \<open>strings.SplitN(s, sep, 2)\<close> or \<open>strings.Cut\<close> would give); the code calls
  \<open>strings.Split\<close> and asks for exactly two parts.
\<close>

fun splitFirst :: "string \<Rightarrow> string \<Rightarrow> (string \<times> string) option" where
  "splitFirst [] sep = None"
| "splitFirst (c # cs) sep =
     (if prefix sep (c # cs) then Some ([], drop (length sep - 1) cs)
      else map_option (\<lambda>(l, r). (c # l, r)) (splitFirst cs sep))"

lemma evaluateCondition_cases:
  assumes "c = replaceVariables wfl res cond"
  shows "length (Split c ''=='') = 2 \<Longrightarrow>
           evaluateCondition wfl res cond =
             (TrimSpace (Split c ''=='' ! 0) = TrimSpace (Trim (Split c ''=='' ! 1) quotes))"
    and "length (Split c ''=='') \<noteq> 2 \<Longrightarrow> length (Split c ''!='') = 2 \<Longrightarrow>
           evaluateCondition wfl res cond =
             (TrimSpace (Split c ''!='' ! 0) \<noteq> TrimSpace (Trim (Split c ''!='' ! 1) quotes))"
    and "length (Split c ''=='') \<noteq> 2 \<Longrightarrow> length (Split c ''!='') \<noteq> 2 \<Longrightarrow>
           evaluateCondition wfl res cond = (c \<noteq> [] \<and> c \<noteq> ''false'' \<and> c \<noteq> ''0'')"
  using assms by (simp_all add: evaluateCondition_def Let_def Contains_Split)

text \<open>
  Claim C4 fails as stated. The text \<open>a==b==c\<close> contains \<open>==\<close>; split at the
  first occurrence, its sides are \<open>a\<close> and \<open>b==c\<close>, which are not equal, so the
  claim makes the condition false. The code splits at both occurrences, finds three
  parts, falls through to the truthiness check, and the condition is true.
\<close>

theorem C4_counterexample:
  "splitFirst ''a==b==c'' ''=='' = Some (''a'', ''b==c'') \<and>
   (TrimSpace ''a'' = TrimSpace (Trim ''b==c'' quotes)) = False \<and>
   evaluateCondition (workflowOf [] []) [] ''a==b==c'' = True"
  by code_simp

text \<open>
  The form of condition that the doc comment of \<open>evaluateCondition\<close> and the README
  give, \<open>${VAR} == "value"\<close> with spaces around the operator: the right part begins
  with a space, so \<open>strings.Trim\<close> removes the closing quote only, and the comparison
  of \<open>prod\<close> with \<open>"prod\<close> fails although the variable has the value.
\<close>

lemma evaluateCondition_documented_form:
  "evaluateCondition (workflowOf [(''env'', ''prod'')] []) []
     (''${env} == '' @ [CHR 0x22] @ ''prod'' @ [CHR 0x22]) = False"
  by code_simp

text \<open>
  Claim C4, amended. With \<open>c\<close> the condition after variable resolution:
  when splitting \<open>c\<close> at every \<open>==\<close> gives exactly two parts, the operator stands
  between them and the result is the equality of the left part, white space trimmed,
  and the right part, white space trimmed and surrounding quotes removed; otherwise,
  when splitting at every \<open>!=\<close> gives exactly two parts, it is their inequality;
  otherwise (each operator absent or present more than once) it is the truthiness of
  \<open>c\<close>: false exactly for the empty text, \<open>false\<close> and \<open>0\<close>. The two comparisons
  are stated for right parts on which trimming white space and removing quotes give
  the same text in either order. \<open>${env} == "prod"\<close> is false for \<open>env = dev\<close>, and
  \<open>1\<close> is true.
\<close>

theorem C4_condition_evaluation:
  assumes "c = replaceVariables wfl res cond"
  shows
   "(\<forall>l r. Split c ''=='' = [l, r] \<and> TrimSpace (Trim r quotes) = Trim (TrimSpace r) quotes \<longrightarrow>
       c = l @ ''=='' @ r \<and>
       evaluateCondition wfl res cond = (TrimSpace l = Trim (TrimSpace r) quotes)) \<and>
    (\<forall>l r. length (Split c ''=='') \<noteq> 2 \<and> Split c ''!='' = [l, r] \<and>
           TrimSpace (Trim r quotes) = Trim (TrimSpace r) quotes \<longrightarrow>
       c = l @ ''!='' @ r \<and>
       evaluateCondition wfl res cond = (TrimSpace l \<noteq> Trim (TrimSpace r) quotes)) \<and>
    (length (Split c ''=='') \<noteq> 2 \<and> length (Split c ''!='') \<noteq> 2 \<longrightarrow>
       evaluateCondition wfl res cond = (c \<noteq> [] \<and> c \<noteq> ''false'' \<and> c \<noteq> ''0'')) \<and>
    (\<not> Contains c ''=='' \<longrightarrow> length (Split c ''=='') = 1) \<and>
    (\<not> Contains c ''!='' \<longrightarrow> length (Split c ''!='') = 1) \<and>
    evaluateCondition (workflowOf [(''env'', ''dev'')] []) []
      (''${env} == '' @ [CHR 0x22] @ ''prod'' @ [CHR 0x22]) = False \<and>
    evaluateCondition (workflowOf [] []) [] ''1'' = True"
proof (intro conjI allI impI)
  fix l r
  assume a: "Split c ''=='' = [l, r] \<and> TrimSpace (Trim r quotes) = Trim (TrimSpace r) quotes"
  then show "c = l @ ''=='' @ r" using Split_pair [of "''==''" c l r] by blast
  from a evaluateCondition_cases(1) [OF assms]
  show "evaluateCondition wfl res cond = (TrimSpace l = Trim (TrimSpace r) quotes)" by simp
next
  fix l r
  assume a: "length (Split c ''=='') \<noteq> 2 \<and> Split c ''!='' = [l, r] \<and>
           TrimSpace (Trim r quotes) = Trim (TrimSpace r) quotes"
  then show "c = l @ ''!='' @ r" using Split_pair [of "''!=''" c l r] by blast
  from a evaluateCondition_cases(2) [OF assms]
  show "evaluateCondition wfl res cond = (TrimSpace l \<noteq> Trim (TrimSpace r) quotes)" by simp
next
  assume "length (Split c ''=='') \<noteq> 2 \<and> length (Split c ''!='') \<noteq> 2"
  with evaluateCondition_cases(3) [OF assms]
  show "evaluateCondition wfl res cond = (c \<noteq> [] \<and> c \<noteq> ''false'' \<and> c \<noteq> ''0'')" by simp
next
  assume "\<not> Contains c ''==''"
  with Split_not_Nil [of c "''==''"] show "length (Split c ''=='') = 1"
    by (cases "Split c ''==''") (simp_all add: Contains_Split)
next
  assume "\<not> Contains c ''!=''"
  with Split_not_Nil [of c "''!=''"] show "length (Split c ''!='') = 1"
    by (cases "Split c ''!=''") (simp_all add: Contains_Split)
next
  show "evaluateCondition (workflowOf [(''env'', ''dev'')] []) []
      (''${env} == '' @ [CHR 0x22] @ ''prod'' @ [CHR 0x22]) = False"
    by code_simp
  show "evaluateCondition (workflowOf [] []) [] ''1'' = True"
    by code_simp
qed


theorem C4_condition_evaluation_witness:
  "replaceVariables (workflowOf [(''env'', ''prod'')] []) []
     (''${env}=='' @ [CHR 0x22] @ ''prod'' @ [CHR 0x22])
     = ''prod=='' @ [CHR 0x22] @ ''prod'' @ [CHR 0x22] \<and>
   Split (''prod=='' @ [CHR 0x22] @ ''prod'' @ [CHR 0x22]) ''==''
     = [''prod'', [CHR 0x22] @ ''prod'' @ [CHR 0x22]] \<and>
   evaluateCondition (workflowOf [(''env'', ''prod'')] []) []
     (''${env}=='' @ [CHR 0x22] @ ''prod'' @ [CHR 0x22]) = True"
proof -
  let ?W = "workflowOf [(''env'', ''prod'')] []"
  let ?cond = "''${env}=='' @ [CHR 0x22] @ ''prod'' @ [CHR 0x22]"
  let ?c = "''prod=='' @ [CHR 0x22] @ ''prod'' @ [CHR 0x22]"
  let ?r = "[CHR 0x22] @ ''prod'' @ [CHR 0x22]"
  have c: "?c = replaceVariables ?W [] ?cond" by code_simp
  have s: "Split ?c ''=='' = [''prod'', ?r]" by code_simp
  have t: "TrimSpace (Trim ?r quotes) = Trim (TrimSpace ?r) quotes" by code_simp
  have v: "(TrimSpace ''prod'' = Trim (TrimSpace ?r) quotes) = True" by code_simp
  from C4_condition_evaluation [OF c, THEN conjunct1]
  have "Split ?c ''=='' = [''prod'', ?r] \<and> TrimSpace (Trim ?r quotes) = Trim (TrimSpace ?r) quotes \<longrightarrow>
       ?c = ''prod'' @ ''=='' @ ?r \<and>
       evaluateCondition ?W [] ?cond = (TrimSpace ''prod'' = Trim (TrimSpace ?r) quotes)"
    by blast
  with s t have "evaluateCondition ?W [] ?cond = (TrimSpace ''prod'' = Trim (TrimSpace ?r) quotes)"
    by blast
  with v have "evaluateCondition ?W [] ?cond = True" by simp
  with c [symmetric] s show ?thesis by blast
qed

section \<open>Variable resolution in the backends\<close>

text \<open>
  Claim C1 on a workflow of two shell tasks, where \<open>u\<close> depends on \<open>t\<close> and its
  command refers to the output of \<open>t\<close>. Every command prints \<open>hi\<close>. The run
  succeeds; \<open>t\<close> is recorded as a success with the output \<open>hi\<close> before \<open>u\<close>
  starts, and yet the shell receives the command of \<open>u\<close> with the placeholder
  \<open>${t.output}\<close> in it: the backends resolve with \<open>Executor.replaceVariables\<close>,
  which knows the workflow variables only. \<open>Engine.replaceVariables\<close>, which the
  condition evaluator uses, does replace the placeholder in the same text.
\<close>

theorem C1_output_reference_reaches_backend:
  "runFrom (quietOS\<lparr>cmd_Run := (\<lambda>lg ctx command. (''hi'', [], None))\<rparr>)
     (workflowOf []
        [zeroTask\<lparr>Name := ''t'', Type := ''shell'', Command := ''echo hi''\<rparr>,
         zeroTask\<lparr>Name := ''u'', Type := ''shell'', Command := ''echo ${t.output}'',
                   DependsOn := [''t'']\<rparr>])
     [] None []
   = (\<lparr>results =
         [(''t'', \<lparr>TaskName = ''t'', Success = True, Error = None, Output = ''hi''\<rparr>),
          (''u'', \<lparr>TaskName = ''u'', Success = True, Error = None, Output = ''hi''\<rparr>)],
       executed = [''u'', ''t''],
       allResults =
         [\<lparr>TaskName = ''t'', Success = True, Error = None, Output = ''hi''\<rparr>,
          \<lparr>TaskName = ''u'', Success = True, Error = None, Output = ''hi''\<rparr>],
       events =
         [Shell None ''sh'' ''-c'' ''echo hi'',
          Shell None ''sh'' ''-c'' ''echo ${t.output}'']\<rparr>, None) \<and>
   replaceVariables (workflowOf [] [])
     [(''t'', \<lparr>TaskName = ''t'', Success = True, Error = None, Output = ''hi''\<rparr>)]
     ''echo ${t.output}'' = ''echo hi''"
  by code_simp

section \<open>The retry loop\<close>

text \<open>
  The attempts of a task, numbered from 0, as the spec describes the supervisor:
  \<open>attempt \<dots> k\<close> is the call of the backend in attempt \<open>k\<close> (its result and the
  log after it), given that the attempts before it took place and failed. It
  starts from the log \<open>attemptLog \<dots> k\<close>: for the first attempt the log on entry;
  for every later one the log at the end of the attempt before, then the line
  that announces the retry, then a sleep of \<open>delay\<close> when the delay is positive.
  \<open>entryLog\<close> is the log before that sleep.
\<close>

fun entryLog ::
  "os \<Rightarrow> (string \<times> string) list \<Rightarrow> int option \<Rightarrow> Task \<Rightarrow> int \<Rightarrow> int \<Rightarrow> event list \<Rightarrow> nat
     \<Rightarrow> event list" where
  "entryLog sys variables taskCtx task maxAttempts delay lg 0 = lg"
| "entryLog sys variables taskCtx task maxAttempts delay lg (Suc k) =
     snd (Execute sys variables taskCtx task
            (if k > 0 \<and> delay > 0
             then entryLog sys variables taskCtx task maxAttempts delay lg k @ [Sleep delay]
             else entryLog sys variables taskCtx task maxAttempts delay lg k))
       @ [Printf (Name task) (int k + 1) maxAttempts]"

definition attemptLog ::
  "os \<Rightarrow> (string \<times> string) list \<Rightarrow> int option \<Rightarrow> Task \<Rightarrow> int \<Rightarrow> int \<Rightarrow> event list \<Rightarrow> nat
     \<Rightarrow> event list" where
  "attemptLog sys variables taskCtx task maxAttempts delay lg k =
     (if k > 0 \<and> delay > 0
      then entryLog sys variables taskCtx task maxAttempts delay lg k @ [Sleep delay]
      else entryLog sys variables taskCtx task maxAttempts delay lg k)"

definition attempt ::
  "os \<Rightarrow> (string \<times> string) list \<Rightarrow> int option \<Rightarrow> Task \<Rightarrow> int \<Rightarrow> int \<Rightarrow> event list \<Rightarrow> nat
     \<Rightarrow> TaskResult \<times> event list" where
  "attempt sys variables taskCtx task maxAttempts delay lg k =
     Execute sys variables taskCtx task
       (attemptLog sys variables taskCtx task maxAttempts delay lg k)"

lemma retryLoop_reaches:
  assumes "\<forall>j<k. \<not> Success (fst (attempt sys vars ctx task m delay lg j))"
    and "int k < m"
  shows "\<exists>prev. retryLoop sys vars ctx task m delay 0 None lg =
           retryLoop sys vars ctx task m delay (int k) prev (entryLog sys vars ctx task m delay lg k)"
  using assms
proof (induction k)
  case 0
  show ?case by auto
next
  case (Suc k)
  let ?e = "entryLog sys vars ctx task m delay lg k"
  let ?a = "if int k > 0 \<and> delay > 0 then ?e @ [Sleep delay] else ?e"
  obtain r lg1 where ex: "Execute sys vars ctx task ?a = (r, lg1)"
    by (cases "Execute sys vars ctx task ?a")
  have al: "attemptLog sys vars ctx task m delay lg k = ?a"
    by (simp add: attemptLog_def)
  from Suc.prems(1) have "\<not> Success (fst (attempt sys vars ctx task m delay lg k))" by simp
  with ex al have "\<not> Success r" by (simp add: attempt_def)
  with Execute_Error_Success [OF ex] have err: "Error r \<noteq> None" by simp
  from Suc.prems have km: "int k < m" and km1: "int k < m - 1" by simp_all
  from Suc.prems(1) have "\<forall>j<k. \<not> Success (fst (attempt sys vars ctx task m delay lg j))" by simp
  from Suc.IH [OF this km] obtain prev where
    "retryLoop sys vars ctx task m delay 0 None lg = retryLoop sys vars ctx task m delay (int k) prev ?e"
    by blast
  also have "\<dots> = retryLoop sys vars ctx task m delay (int k + 1) (Some r)
                    (if int k < m - 1 then lg1 @ [Printf (Name task) (int k + 1) m] else lg1)"
    by (rule retryLoop_failure [OF km ex err])
  also from km1 ex have "(if int k < m - 1 then lg1 @ [Printf (Name task) (int k + 1) m] else lg1)
      = entryLog sys vars ctx task m delay lg (Suc k)"
    by simp
  finally show ?case by (auto simp: add.commute)
qed

lemma retryLoop_first_success:
  assumes "\<forall>j<k. \<not> Success (fst (attempt sys vars ctx task m delay lg j))"
    and "int k < m"
    and "Success (fst (attempt sys vars ctx task m delay lg k))"
  shows "retryLoop sys vars ctx task m delay 0 None lg =
           (Some (fst (attempt sys vars ctx task m delay lg k)),
            snd (attempt sys vars ctx task m delay lg k))"
proof -
  let ?e = "entryLog sys vars ctx task m delay lg k"
  let ?a = "if int k > 0 \<and> delay > 0 then ?e @ [Sleep delay] else ?e"
  obtain r lg1 where ex: "Execute sys vars ctx task ?a = (r, lg1)"
    by (cases "Execute sys vars ctx task ?a")
  have al: "attemptLog sys vars ctx task m delay lg k = ?a"
    by (simp add: attemptLog_def)
  from ex al have at: "attempt sys vars ctx task m delay lg k = (r, lg1)"
    by (simp add: attempt_def)
  with assms(3) Execute_Error_Success [OF ex] have "Error r = None" by simp
  from retryLoop_reaches [OF assms(1,2)] retryLoop_success [OF assms(2) ex this] at
  show ?thesis by auto
qed

lemma retryLoop_all_fail:
  assumes "\<forall>j<Suc k. \<not> Success (fst (attempt sys vars ctx task m delay lg j))"
    and "int (Suc k) = m"
  shows "retryLoop sys vars ctx task m delay 0 None lg =
           (Some (fst (attempt sys vars ctx task m delay lg k)),
            snd (attempt sys vars ctx task m delay lg k))"
proof -
  let ?e = "entryLog sys vars ctx task m delay lg k"
  let ?a = "if int k > 0 \<and> delay > 0 then ?e @ [Sleep delay] else ?e"
  obtain r lg1 where ex: "Execute sys vars ctx task ?a = (r, lg1)"
    by (cases "Execute sys vars ctx task ?a")
  have al: "attemptLog sys vars ctx task m delay lg k = ?a"
    by (simp add: attemptLog_def)
  from ex al have at: "attempt sys vars ctx task m delay lg k = (r, lg1)"
    by (simp add: attempt_def)
  from assms(1) have "\<not> Success (fst (attempt sys vars ctx task m delay lg k))" by simp
  with at Execute_Error_Success [OF ex] have err: "Error r \<noteq> None" by simp
  from assms(2) have km: "int k < m" and last: "\<not> int k < m - 1" and stop: "\<not> int k + 1 < m"
    by simp_all
  from assms(1) have "\<forall>j<k. \<not> Success (fst (attempt sys vars ctx task m delay lg j))" by simp
  from retryLoop_reaches [OF this km] obtain prev where
    "retryLoop sys vars ctx task m delay 0 None lg = retryLoop sys vars ctx task m delay (int k) prev ?e"
    by blast
  also have "\<dots> = retryLoop sys vars ctx task m delay (int k + 1) (Some r)
                    (if int k < m - 1 then lg1 @ [Printf (Name task) (int k + 1) m] else lg1)"
    by (rule retryLoop_failure [OF km ex err])
  also from last have "\<dots> = retryLoop sys vars ctx task m delay (int k + 1) (Some r) lg1" by simp
  also have "\<dots> = (Some r, lg1)" by (rule retryLoop_done [OF stop])
  finally show ?thesis using at by simp
qed


text \<open>
  An outside in which the first two commands fail and every later one prints \<open>ok\<close>.
\<close>

definition flakyOS :: os where
  "flakyOS =
     quietOS\<lparr>cmd_Run := (\<lambda>lg ctx command.
        if length (filter (\<lambda>e. case e of Shell c sh flag cmd \<Rightarrow> True | _ \<Rightarrow> False) lg) < 2
        then ([], ''boom'', Some ''exit status 1'')
        else (''ok'', [], None))\<rparr>"

text \<open>
  Claim C6. For a task that is not skipped, with \<open>m\<close> the number of attempts
  (\<open>MaxAttempts\<close> when positive, 1 otherwise) and \<open>A k\<close> its attempt \<open>k\<close>:
  if attempt \<open>k < m\<close> is the first to succeed, \<open>executeTask\<close> returns the result of
  that attempt and no later attempt takes place; if all \<open>m\<close> attempts fail, it
  returns the result of the last one. Attempt 0 calls the backend with the log on
  entry; attempt \<open>k + 1\<close> calls it after the end of attempt \<open>k\<close>, the retry line and
  a sleep of the delay. In particular, with \<open>MaxAttempts = 3\<close> and a backend that
  fails twice and then succeeds, the result is the success of the third attempt, with
  its output.
\<close>

theorem C6_retry_until_success:
  assumes "Condition task = [] \<or> evaluateCondition wfl res (Condition task)"
    and "m = (if MaxAttempts (Retry task) > 0 then MaxAttempts (Retry task) else 1)"
    and "delay = (if MaxAttempts (Retry task) > 0 then Delay (Retry task) else 0)"
    and "taskCtx = (if Timeout task > 0 then Some (Timeout task) else ctx)"
    and "A = attempt sys (Variables wfl) taskCtx task m delay lg"
    and "L = attemptLog sys (Variables wfl) taskCtx task m delay lg"
  shows
    "(\<forall>k. int k < m \<and> (\<forall>j<k. \<not> Success (fst (A j))) \<and> Success (fst (A k)) \<longrightarrow>
         executeTask sys wfl res ctx task lg = (Some (fst (A k)), snd (A k))) \<and>
     ((\<forall>j. int j < m \<longrightarrow> \<not> Success (fst (A j))) \<longrightarrow>
         executeTask sys wfl res ctx task lg = (Some (fst (A (nat m - 1))), snd (A (nat m - 1)))) \<and>
     (\<forall>k. A k = Execute sys (Variables wfl) taskCtx task (L k)) \<and>
     L 0 = lg \<and>
     (\<forall>k. L (Suc k) = snd (A k) @ [Printf (Name task) (int k + 1) m]
                        @ (if delay > 0 then [Sleep delay] else [])) \<and>
     (MaxAttempts (Retry task) = 3 \<and> \<not> Success (fst (A 0)) \<and> \<not> Success (fst (A 1)) \<and>
      Success (fst (A 2)) \<longrightarrow>
         (\<exists>lg'. executeTask sys wfl res ctx task lg = (Some (fst (A 2)), lg')) \<and>
         Output (fst (A 2)) = Output (fst (Execute sys (Variables wfl) taskCtx task (L 2))))"
proof -
  have ex: "executeTask sys wfl res ctx task lg =
              retryLoop sys (Variables wfl) taskCtx task m delay 0 None lg"
    using assms(1-4) by (simp add: executeTask_run)
  have first: "executeTask sys wfl res ctx task lg = (Some (fst (A k)), snd (A k))"
    if "int k < m" "\<forall>j<k. \<not> Success (fst (A j))" "Success (fst (A k))" for k
    unfolding ex using that retryLoop_first_success [of k sys "Variables wfl" taskCtx task m delay lg]
    by (simp add: assms(5))
  have none: "executeTask sys wfl res ctx task lg
                = (Some (fst (A (nat m - 1))), snd (A (nat m - 1)))"
    if f: "\<forall>j. int j < m \<longrightarrow> \<not> Success (fst (A j))"
  proof -
    from assms(2) have "0 < m" by simp
    then have s: "int (Suc (nat m - 1)) = m" by simp
    from f s have "\<forall>j<Suc (nat m - 1). \<not> Success (fst (A j))" by auto
    with retryLoop_all_fail [of "nat m - 1" sys "Variables wfl" taskCtx task m delay lg, OF _ s]
    show ?thesis unfolding ex by (simp add: assms(5))
  qed
  have a: "A k = Execute sys (Variables wfl) taskCtx task (L k)" for k
    by (simp add: assms(5,6) attempt_def)
  have l0: "L 0 = lg" by (simp add: assms(6) attemptLog_def)
  have ls: "L (Suc k) = snd (A k) @ [Printf (Name task) (int k + 1) m]
                        @ (if delay > 0 then [Sleep delay] else [])" for k
    by (simp add: assms(5,6) attemptLog_def attempt_def)
  have three: "(\<exists>lg'. executeTask sys wfl res ctx task lg = (Some (fst (A 2)), lg')) \<and>
         Output (fst (A 2)) = Output (fst (Execute sys (Variables wfl) taskCtx task (L 2)))"
    if t: "MaxAttempts (Retry task) = 3 \<and> \<not> Success (fst (A 0)) \<and> \<not> Success (fst (A 1)) \<and>
      Success (fst (A 2))"
  proof -
    from t assms(2) have "int 2 < m" by simp
    moreover from t have "\<forall>j<2::nat. \<not> Success (fst (A j))"
      by (auto simp: less_Suc_eq numeral_2_eq_2)
    ultimately have "executeTask sys wfl res ctx task lg = (Some (fst (A 2)), snd (A 2))"
      using t by (intro first) auto
    then show ?thesis using a [of 2] by auto
  qed
  from first none a l0 ls three show ?thesis by blast
qed


theorem C6_retry_until_success_witness:
  "executeTask flakyOS (workflowOf [] []) [] None
     (zeroTask\<lparr>Name := ''a'', Type := ''shell'', Command := ''fetch'',
               Retry := \<lparr>MaxAttempts = 3, Delay = 5\<rparr>\<rparr>) []
   = (Some \<lparr>TaskName = ''a'', Success = True, Error = None, Output = ''ok''\<rparr>,
      [Shell None ''sh'' ''-c'' ''fetch'', Printf ''a'' 1 3, Sleep 5,
       Shell None ''sh'' ''-c'' ''fetch'', Printf ''a'' 2 3, Sleep 5,
       Shell None ''sh'' ''-c'' ''fetch''])"
proof -
  let ?t = "zeroTask\<lparr>Name := ''a'', Type := ''shell'', Command := ''fetch'',
               Retry := \<lparr>MaxAttempts = 3, Delay = 5\<rparr>\<rparr>"
  let ?W = "workflowOf [] []"
  let ?A = "attempt flakyOS (Variables ?W) None ?t 3 5 []"
  have c: "Condition ?t = [] \<or> evaluateCondition ?W [] (Condition ?t)"
    by (simp add: zeroTask_def)
  have m: "(3::int) = (if MaxAttempts (Retry ?t) > 0 then MaxAttempts (Retry ?t) else 1)"
    by simp
  have d: "(5::int) = (if MaxAttempts (Retry ?t) > 0 then Delay (Retry ?t) else 0)"
    by simp
  have x: "None = (if Timeout ?t > 0 then Some (Timeout ?t) else None)"
    by (simp add: zeroTask_def)
  have a0: "\<not> Success (fst (?A 0))" by code_simp
  have a1: "\<not> Success (fst (?A 1))" by code_simp
  have a2: "?A 2 = (\<lparr>TaskName = ''a'', Success = True, Error = None, Output = ''ok''\<rparr>,
      [Shell None ''sh'' ''-c'' ''fetch'', Printf ''a'' 1 3, Sleep 5,
       Shell None ''sh'' ''-c'' ''fetch'', Printf ''a'' 2 3, Sleep 5,
       Shell None ''sh'' ''-c'' ''fetch''])" by code_simp
  from a0 a1 have f: "\<forall>j<2::nat. \<not> Success (fst (?A j))"
    by (auto simp: less_Suc_eq numeral_2_eq_2)
  from C6_retry_until_success [OF c m d x refl refl, of flakyOS "[]", THEN conjunct1]
  have "int 2 < 3 \<and> (\<forall>j<2. \<not> Success (fst (?A j))) \<and> Success (fst (?A 2)) \<longrightarrow>
         executeTask flakyOS ?W [] None ?t [] = (Some (fst (?A 2)), snd (?A 2))"
    by (rule spec)
  with f a2 show ?thesis by simp
qed

section \<open>The rounds of a run\<close>

lemma runLoop_done:
  "\<not> length (executed st) < length (Tasks wfl) \<Longrightarrow> runLoop sys wfl ctx st = (st, None)"
  by (subst runLoop.simps) simp

lemma runLoop_deadlock:
  "length (executed st) < length (Tasks wfl) \<Longrightarrow> readyTasks wfl st = [] \<Longrightarrow>
   runLoop sys wfl ctx st = (st, Some (Deadlock (unexecuted wfl st)))"
  by (subst runLoop.simps) simp

lemma runLoop_error:
  "length (executed st) < length (Tasks wfl) \<Longrightarrow> readyTasks wfl st \<noteq> [] \<Longrightarrow>
   runRound sys wfl ctx (readyTasks wfl st) st = (st', Some err) \<Longrightarrow>
   runLoop sys wfl ctx st = (st', Some err)"
  by (subst runLoop.simps) simp

lemma runLoop_next:
  "length (executed st) < length (Tasks wfl) \<Longrightarrow> readyTasks wfl st \<noteq> [] \<Longrightarrow>
   runRound sys wfl ctx (readyTasks wfl st) st = (st', None) \<Longrightarrow>
   runLoop sys wfl ctx st = runLoop sys wfl ctx st'"
  by (subst runLoop.simps) simp

text \<open>
  The states in which the rounds of a run begin: \<open>atRound sys wfl ctx st0 st\<close> says
  that the loop of \<open>Run\<close>, started in \<open>st0\<close>, computes the ready tasks of some round
  in the state \<open>st\<close>. The first round begins in \<open>st0\<close>; a round that ends without an
  error is followed by the next one.
\<close>

inductive atRound :: "os \<Rightarrow> Workflow \<Rightarrow> int option \<Rightarrow> run_state \<Rightarrow> run_state \<Rightarrow> bool"
  for sys wfl ctx st0 where
    first: "atRound sys wfl ctx st0 st0"
  | later: "atRound sys wfl ctx st0 st \<Longrightarrow> length (executed st) < length (Tasks wfl) \<Longrightarrow>
            readyTasks wfl st \<noteq> [] \<Longrightarrow>
            runRound sys wfl ctx (readyTasks wfl st) st = (st', None) \<Longrightarrow>
            atRound sys wfl ctx st0 st'"

lemma runLoop_atRound:
  "atRound sys wfl ctx st0 st \<Longrightarrow> runLoop sys wfl ctx st0 = runLoop sys wfl ctx st"
  by (induction rule: atRound.induct) (simp_all add: runLoop_next)

text \<open>
  The state after recording the results \<open>rs\<close> one after another.
\<close>

definition recordAll :: "TaskResult list \<Rightarrow> run_state \<Rightarrow> run_state" where
  "recordAll rs st = foldl (\<lambda>s r. recordResult r s) st rs"

lemma recordAll_simps [simp]:
  "recordAll [] st = st"
  "recordAll (r # rs) st = recordAll rs (recordResult r st)"
  "recordAll (rs @ rs') st = recordAll rs' (recordAll rs st)"
  by (simp_all add: recordAll_def)

lemma recordResult_events: "recordResult r (st\<lparr>events := lg\<rparr>) = (recordResult r st)\<lparr>events := lg\<rparr>"
  by (simp add: recordResult_def)

lemma recordAll_events: "recordAll rs (st\<lparr>events := lg\<rparr>) = (recordAll rs st)\<lparr>events := lg\<rparr>"
  by (induction rs arbitrary: st) (simp_all add: recordResult_events)

lemma events_recordAll [simp]: "events (recordAll rs st) = events st"
  by (induction rs arbitrary: st) simp_all

lemma allResults_recordAll [simp]: "allResults (recordAll rs st) = allResults st @ rs"
  by (induction rs arbitrary: st) simp_all

lemma set_executed_recordAll [simp]:
  "set (executed (recordAll rs st)) = set (executed st) \<union> TaskName ` set rs"
  by (induction rs arbitrary: st) auto

lemma distinct_executed_recordAll:
  "distinct (executed st) \<Longrightarrow> distinct (executed (recordAll rs st))"
  by (induction rs arbitrary: st) simp_all

text \<open>
  What every execution of a task gives: a result under the task's name, with an
  error exactly when it is not a success.
\<close>

definition resultOf :: "Task \<Rightarrow> TaskResult \<Rightarrow> bool" where
  "resultOf t r = (TaskName r = Name t \<and> (Error r = None) = Success r)"

lemma executeTask_resultOf:
  "\<exists>r lg'. executeTask sys wfl res ctx task lg = (Some r, lg') \<and> resultOf task r"
  unfolding resultOf_def by (rule executeTask_Some)

lemma executeParallel_effect:
  "executeParallel sys wfl res ctx ts lg = (ors, lg') \<Longrightarrow>
   \<exists>rs. ors = map Some rs \<and> list_all2 resultOf ts rs"
proof (induction ts arbitrary: lg ors lg')
  case Nil
  then show ?case by simp
next
  case (Cons t ts)
  obtain r lg1 where e: "executeTask sys wfl res ctx t lg = (Some r, lg1)" "resultOf t r"
    using executeTask_resultOf by blast
  obtain ors' lg2 where p: "executeParallel sys wfl res ctx ts lg1 = (ors', lg2)"
    by (cases "executeParallel sys wfl res ctx ts lg1")
  from Cons.IH [OF p] obtain rs where "ors' = map Some rs" "list_all2 resultOf ts rs" by blast
  with Cons.prems e p have "ors = map Some (r # rs) \<and> list_all2 resultOf (t # ts) (r # rs)"
    by auto
  then show ?case by blast
qed

lemma recordParallel_Some: "recordParallel (map Some rs) st = (recordAll rs st, None)"
  by (induction rs arbitrary: st) simp_all

lemma runParallel_effect:
  assumes "runParallel sys wfl ctx ts st = (st', err)"
  shows "\<exists>rs. st' = (recordAll rs st)\<lparr>events := events st'\<rparr> \<and> list_all2 resultOf ts rs \<and> err = None"
proof (cases "ts = []")
  case True
  with assms show ?thesis by (auto simp: runParallel_def)
next
  case False
  obtain ors lg where e: "executeParallel sys wfl (results st) ctx ts (events st) = (ors, lg)"
    by (cases "executeParallel sys wfl (results st) ctx ts (events st)")
  from executeParallel_effect [OF e] obtain rs where rs: "ors = map Some rs" "list_all2 resultOf ts rs"
    by blast
  from assms False e rs have "st' = recordAll rs (st\<lparr>events := lg\<rparr>)" "err = None"
    by (simp_all add: runParallel_def recordParallel_Some)
  with rs(2) show ?thesis by (auto simp: recordAll_events)
qed

lemma runSequential_effect:
  "runSequential sys wfl ctx ts st = (st', err) \<Longrightarrow>
   \<exists>rs. st' = (recordAll rs st)\<lparr>events := events st'\<rparr> \<and>
        list_all2 resultOf (take (length rs) ts) rs \<and> length rs \<le> length ts \<and>
        (\<forall>i<length rs. i + 1 < length rs \<longrightarrow> Success (rs ! i) \<or> ContinueOnError (ts ! i)) \<and>
        (case err of
           None \<Rightarrow> length rs = length ts \<and>
                   (\<forall>i<length rs. Success (rs ! i) \<or> ContinueOnError (ts ! i))
         | Some e \<Rightarrow> rs \<noteq> [] \<and> \<not> Success (last rs) \<and> \<not> ContinueOnError (ts ! (length rs - 1)) \<and>
                     e = TaskFailed (Name (ts ! (length rs - 1))) (Error (last rs)))"
proof (induction ts arbitrary: st)
  case Nil
  then show ?case by auto
next
  case (Cons t ts)
  obtain r lg1 where e: "executeTask sys wfl (results st) ctx t (events st) = (Some r, lg1)"
      "resultOf t r"
    using executeTask_resultOf by blast
  let ?s1 = "recordResult r (st\<lparr>events := lg1\<rparr>)"
  show ?case
  proof (cases "\<not> Success r \<and> \<not> ContinueOnError t")
    case True
    with Cons.prems e have "st' = ?s1" "err = Some (TaskFailed (Name t) (Error r))"
      by (simp_all add: Let_def)
    then have "st' = (recordAll [r] st)\<lparr>events := events st'\<rparr>"
      by (simp add: recordResult_events)
    with True e \<open>err = _\<close> show ?thesis
      by (intro exI [of _ "[r]"]) simp
  next
    case False
    with Cons.prems e have "runSequential sys wfl ctx ts ?s1 = (st', err)"
      by (auto simp: Let_def)
    from Cons.IH [OF this] obtain rs where rs:
      "st' = (recordAll rs ?s1)\<lparr>events := events st'\<rparr>"
      "list_all2 resultOf (take (length rs) ts) rs" "length rs \<le> length ts"
      "\<forall>i<length rs. i + 1 < length rs \<longrightarrow> Success (rs ! i) \<or> ContinueOnError (ts ! i)"
      "case err of
           None \<Rightarrow> length rs = length ts \<and>
                   (\<forall>i<length rs. Success (rs ! i) \<or> ContinueOnError (ts ! i))
         | Some e \<Rightarrow> rs \<noteq> [] \<and> \<not> Success (last rs) \<and> \<not> ContinueOnError (ts ! (length rs - 1)) \<and>
                     e = TaskFailed (Name (ts ! (length rs - 1))) (Error (last rs))"
      by blast
    from rs(1) have 1: "st' = (recordAll (r # rs) st)\<lparr>events := events st'\<rparr>"
      by (simp add: recordResult_events recordAll_events)
    from rs(2) e have 2: "list_all2 resultOf (take (length (r # rs)) (t # ts)) (r # rs)"
      by simp
    from rs(3) have 3: "length (r # rs) \<le> length (t # ts)" by simp
    from rs(4) False have 4: "\<forall>i<length (r # rs). i + 1 < length (r # rs) \<longrightarrow>
        Success ((r # rs) ! i) \<or> ContinueOnError ((t # ts) ! i)"
      by (auto simp: nth_Cons split: nat.splits)
    from rs(5) False have 5: "case err of
           None \<Rightarrow> length (r # rs) = length (t # ts) \<and>
                   (\<forall>i<length (r # rs). Success ((r # rs) ! i) \<or> ContinueOnError ((t # ts) ! i))
         | Some e \<Rightarrow> (r # rs) \<noteq> [] \<and> \<not> Success (last (r # rs)) \<and>
                     \<not> ContinueOnError ((t # ts) ! (length (r # rs) - 1)) \<and>
                     e = TaskFailed (Name ((t # ts) ! (length (r # rs) - 1))) (Error (last (r # rs)))"
      by (cases err) (auto simp: nth_Cons split: nat.splits)
    from 1 2 3 4 5 show ?thesis by blast
  qed
qed

section \<open>Errors of a run\<close>

lemma runSequential_append:
  "runSequential sys wfl ctx (xs @ ys) st =
     (case runSequential sys wfl ctx xs st of
        (st', Some err) \<Rightarrow> (st', Some err)
      | (st', None) \<Rightarrow> runSequential sys wfl ctx ys st')"
proof (induction xs arbitrary: st)
  case Nil
  show ?case by simp
next
  case (Cons t xs)
  obtain r lg1 where e: "executeTask sys wfl (results st) ctx t (events st) = (Some r, lg1)"
    using executeTask_resultOf by blast
  with Cons.IH show ?case by (simp add: Let_def)
qed

lemma resultOf_names:
  "list_all2 resultOf ts rs \<Longrightarrow> map TaskName rs = map Name ts"
  by (induction ts rs rule: list_all2_induct) (simp_all add: resultOf_def)

lemma runRound_effect:
  assumes "runRound sys wfl ctx ready st = (st', err)"
  shows "\<exists>rsP rsS. st' = (recordAll (rsP @ rsS) st)\<lparr>events := events st'\<rparr> \<and>
           list_all2 resultOf (filter Parallel ready) rsP \<and>
           list_all2 resultOf (take (length rsS) (filter (\<lambda>t. \<not> Parallel t) ready)) rsS \<and>
           (err = None \<longrightarrow> length rsS = length (filter (\<lambda>t. \<not> Parallel t) ready)) \<and>
           (\<forall>e. err = Some e \<longrightarrow> (\<exists>n x. e = TaskFailed n x))"
proof -
  obtain st1 err1 where p: "runParallel sys wfl ctx (filter Parallel ready) st = (st1, err1)"
    by (cases "runParallel sys wfl ctx (filter Parallel ready) st")
  from runParallel_effect [OF p] obtain rsP where rsP:
    "st1 = (recordAll rsP st)\<lparr>events := events st1\<rparr>"
    "list_all2 resultOf (filter Parallel ready) rsP" "err1 = None"
    by blast
  from assms p rsP(3)
  have s: "runSequential sys wfl ctx (filter (\<lambda>t. \<not> Parallel t) ready) st1 = (st', err)"
    by (simp add: runRound_def Let_def)
  from runSequential_effect [OF s] obtain rsS where rsS:
    "st' = (recordAll rsS st1)\<lparr>events := events st'\<rparr>"
    "list_all2 resultOf (take (length rsS) (filter (\<lambda>t. \<not> Parallel t) ready)) rsS"
    "case err of
           None \<Rightarrow> length rsS = length (filter (\<lambda>t. \<not> Parallel t) ready) \<and>
                   (\<forall>i<length rsS. Success (rsS ! i) \<or> ContinueOnError (filter (\<lambda>t. \<not> Parallel t) ready ! i))
         | Some e \<Rightarrow> rsS \<noteq> [] \<and> \<not> Success (last rsS) \<and>
                     \<not> ContinueOnError (filter (\<lambda>t. \<not> Parallel t) ready ! (length rsS - 1)) \<and>
                     e = TaskFailed (Name (filter (\<lambda>t. \<not> Parallel t) ready ! (length rsS - 1))) (Error (last rsS))"
    by blast
  from rsS(1) rsP(1) have "st' = (recordAll rsS ((recordAll rsP st)\<lparr>events := events st1\<rparr>))\<lparr>events := events st'\<rparr>"
    by simp
  then have 1: "st' = (recordAll (rsP @ rsS) st)\<lparr>events := events st'\<rparr>"
    by (simp add: recordAll_events)
  from rsS(3) have 2: "err = None \<longrightarrow> length rsS = length (filter (\<lambda>t. \<not> Parallel t) ready)"
    and 3: "\<forall>e. err = Some e \<longrightarrow> (\<exists>n x. e = TaskFailed n x)"
    by (cases err; simp)+
  from 1 rsP(2) rsS(2) 2 3 show ?thesis by blast
qed

text \<open>
  An invariant of the rounds: \<open>executed\<close> holds names of tasks of the workflow,
  each once.
\<close>

definition namesOK :: "Workflow \<Rightarrow> run_state \<Rightarrow> bool" where
  "namesOK wfl st = (distinct (executed st) \<and> set (executed st) \<subseteq> Name ` set (Tasks wfl))"

lemma runRound_namesOK:
  assumes "runRound sys wfl ctx ready st = (st', err)" and "namesOK wfl st"
    and "set ready \<subseteq> set (Tasks wfl)"
  shows "namesOK wfl st'"
proof -
  from runRound_effect [OF assms(1)] obtain rsP rsS where e:
    "st' = (recordAll (rsP @ rsS) st)\<lparr>events := events st'\<rparr>"
    "list_all2 resultOf (filter Parallel ready) rsP"
    "list_all2 resultOf (take (length rsS) (filter (\<lambda>t. \<not> Parallel t) ready)) rsS"
    by blast
  from e(1) have ex: "executed st' = executed (recordAll (rsP @ rsS) st)"
    by (metis (no_types, lifting) run_state.select_convs(2) run_state.surjective run_state.update_convs(4))
  from resultOf_names [OF e(2)] have "TaskName ` set rsP = Name ` set (filter Parallel ready)"
    by (metis list.set_map)
  with assms(3) have p: "TaskName ` set rsP \<subseteq> Name ` set (Tasks wfl)" by auto
  from resultOf_names [OF e(3)]
  have "TaskName ` set rsS = Name ` set (take (length rsS) (filter (\<lambda>t. \<not> Parallel t) ready))"
    by (metis list.set_map)
  also have "\<dots> \<subseteq> Name ` set (filter (\<lambda>t. \<not> Parallel t) ready)"
    by (intro image_mono set_take_subset)
  finally have s: "TaskName ` set rsS \<subseteq> Name ` set (Tasks wfl)" using assms(3) by auto
  from assms(2) p s show ?thesis
    unfolding namesOK_def ex by (auto simp: distinct_executed_recordAll)
qed

lemma atRound_namesOK:
  "atRound sys wfl ctx st0 st \<Longrightarrow> namesOK wfl st0 \<Longrightarrow> namesOK wfl st"
proof (induction rule: atRound.induct)
  case first
  then show ?case .
next
  case (later st st')
  have "set (readyTasks wfl st) \<subseteq> set (Tasks wfl)" by (auto simp: readyTasks_def)
  with later runRound_namesOK show ?case by blast
qed

lemma namesOK_guard:
  assumes "namesOK wfl st" and "t \<in> set (Tasks wfl)" and "Name t \<notin> set (executed st)"
  shows "length (executed st) < length (Tasks wfl)"
proof -
  from assms have "set (executed st) \<subset> Name ` set (Tasks wfl)"
    by (auto simp: namesOK_def)
  then have "card (set (executed st)) < card (Name ` set (Tasks wfl))"
    by (intro psubset_card_mono) simp_all
  also have "\<dots> \<le> card (set (Tasks wfl))" by (rule card_image_le) simp
  also have "\<dots> \<le> length (Tasks wfl)" by (rule card_length)
  finally show ?thesis using assms(1) by (simp add: namesOK_def distinct_card)
qed


lemma namesOK_initial: "namesOK wfl \<lparr>results = results0, executed = [], allResults = [], events = lg0\<rparr>"
  by (simp add: namesOK_def)

text \<open>
  Claim C2. If a round of a run (of an engine whose store is \<open>results0\<close>) finds
  no ready task while some task of the workflow is not executed, \<open>Run\<close> returns the
  results gathered up to that round and the deadlock error with the names of the
  tasks that are not executed, which is not empty. For a workflow of two tasks of which
  each depends on the other, \<open>Run\<close> returns no result and the deadlock error with
  both names.
\<close>

theorem C2_deadlock_error:
  "(atRound sys wfl ctx \<lparr>results = results0, executed = [], allResults = [], events = lg0\<rparr> st \<and>
    readyTasks wfl st = [] \<and> (\<exists>t\<in>set (Tasks wfl). Name t \<notin> set (executed st)) \<longrightarrow>
      Run sys wfl results0 ctx lg0 = (allResults st, Some (Deadlock (unexecuted wfl st))) \<and>
      set (unexecuted wfl st) = {Name t |t. t \<in> set (Tasks wfl) \<and> Name t \<notin> set (executed st)} \<and>
      unexecuted wfl st \<noteq> []) \<and>
   (Tasks wfl = [A, B] \<and> Name B \<in> set (DependsOn A) \<and> Name A \<in> set (DependsOn B) \<longrightarrow>
      Run sys wfl results0 ctx lg0 = ([], Some (Deadlock [Name A, Name B])))"
proof (intro conjI impI)
  let ?st0 = "\<lparr>results = results0, executed = [], allResults = [], events = lg0\<rparr>"
  assume a: "atRound sys wfl ctx ?st0 st \<and> readyTasks wfl st = [] \<and>
             (\<exists>t\<in>set (Tasks wfl). Name t \<notin> set (executed st))"
  then obtain t where t: "t \<in> set (Tasks wfl)" "Name t \<notin> set (executed st)" by blast
  from a have "namesOK wfl st" using atRound_namesOK namesOK_initial by blast
  then have guard: "length (executed st) < length (Tasks wfl)" using t by (rule namesOK_guard)
  from a have "runLoop sys wfl ctx ?st0 = runLoop sys wfl ctx st" by (simp add: runLoop_atRound)
  also from guard a have "\<dots> = (st, Some (Deadlock (unexecuted wfl st)))"
    by (simp add: runLoop_deadlock)
  finally show "Run sys wfl results0 ctx lg0 = (allResults st, Some (Deadlock (unexecuted wfl st)))"
    by (simp add: Run_def runFrom_def)
  show "set (unexecuted wfl st) = {Name t |t. t \<in> set (Tasks wfl) \<and> Name t \<notin> set (executed st)}"
    by (auto simp: unexecuted_def)
  from t show "unexecuted wfl st \<noteq> []" by (auto simp: unexecuted_def filter_empty_conv)
next
  let ?st0 = "\<lparr>results = results0, executed = [], allResults = [], events = lg0\<rparr>"
  assume c: "Tasks wfl = [A, B] \<and> Name B \<in> set (DependsOn A) \<and> Name A \<in> set (DependsOn B)"
  then have r: "readyTasks wfl ?st0 = []"
    by (auto simp: readyTasks_def dependenciesMet_def dependenciesMetLoop_iff)
  from c have u: "unexecuted wfl ?st0 = [Name A, Name B]" by (simp add: unexecuted_def)
  from c have "length (executed ?st0) < length (Tasks wfl)" by simp
  from runLoop_deadlock [OF this r] u
  show "Run sys wfl results0 ctx lg0 = ([], Some (Deadlock [Name A, Name B]))"
    by (simp add: Run_def runFrom_def)
qed

text \<open>
  Claim C3. In a round of a run, let the parallel batch end in \<open>st1\<close>, let the
  sequential tasks be \<open>pre\<close>, then \<open>task\<close>, then \<open>post\<close>, let the tasks \<open>pre\<close>
  run without stopping the run, up to the state \<open>st2\<close>, and let \<open>task\<close> fail with
  the result \<open>r\<close>. Without \<open>ContinueOnError\<close>, \<open>Run\<close> returns at once: the
  results gathered so far, then \<open>r\<close>, with the error that names the task; no task of
  \<open>post\<close> is executed. With \<open>ContinueOnError\<close>, the run goes on with the tasks
  \<open>post\<close> from the state in which \<open>r\<close> is recorded, and with the next rounds after
  them.
\<close>

theorem C3_sequential_failure:
  assumes "atRound sys wfl ctx \<lparr>results = results0, executed = [], allResults = [], events = lg0\<rparr> st"
    and "runParallel sys wfl ctx (filter Parallel (readyTasks wfl st)) st = (st1, None)"
    and "filter (\<lambda>t. \<not> Parallel t) (readyTasks wfl st) = pre @ task # post"
    and "runSequential sys wfl ctx pre st1 = (st2, None)"
    and "executeTask sys wfl (results st2) ctx task (events st2) = (Some r, lg)"
    and "\<not> Success r"
  shows "(\<not> ContinueOnError task \<longrightarrow>
            Run sys wfl results0 ctx lg0
              = (allResults st2 @ [r], Some (TaskFailed (Name task) (Error r)))) \<and>
         (ContinueOnError task \<longrightarrow>
            runFrom sys wfl results0 ctx lg0
              = (case runSequential sys wfl ctx post (recordResult r (st2\<lparr>events := lg\<rparr>)) of
                   (st', Some err) \<Rightarrow> (st', Some err)
                 | (st', None) \<Rightarrow> runLoop sys wfl ctx st'))"
proof -
  let ?st0 = "\<lparr>results = results0, executed = [], allResults = [], events = lg0\<rparr>"
  let ?st3 = "recordResult r (st2\<lparr>events := lg\<rparr>)"
  from assms(3) have "task \<in> set (filter (\<lambda>t. \<not> Parallel t) (readyTasks wfl st))" by simp
  then have ready: "task \<in> set (readyTasks wfl st)" by simp
  then have ne: "readyTasks wfl st \<noteq> []" by auto
  from ready have "task \<in> set (Tasks wfl)" "Name task \<notin> set (executed st)"
    by (simp_all add: readyTasks_def)
  moreover from assms(1) have "namesOK wfl st" using atRound_namesOK namesOK_initial by blast
  ultimately have guard: "length (executed st) < length (Tasks wfl)"
    using namesOK_guard by blast
  have round: "runRound sys wfl ctx (readyTasks wfl st) st =
          (if \<not> ContinueOnError task then (?st3, Some (TaskFailed (Name task) (Error r)))
           else runSequential sys wfl ctx post ?st3)"
    using assms(2-6) by (simp add: runRound_def Let_def runSequential_append)
  have start: "runLoop sys wfl ctx ?st0 = runLoop sys wfl ctx st"
    using assms(1) by (rule runLoop_atRound)
  show ?thesis
  proof (intro conjI impI)
    assume "\<not> ContinueOnError task"
    with round have "runRound sys wfl ctx (readyTasks wfl st) st
                       = (?st3, Some (TaskFailed (Name task) (Error r)))" by simp
    from runLoop_error [OF guard ne this] start
    show "Run sys wfl results0 ctx lg0
              = (allResults st2 @ [r], Some (TaskFailed (Name task) (Error r)))"
      by (simp add: Run_def runFrom_def)
  next
    assume c: "ContinueOnError task"
    obtain st' err where s: "runSequential sys wfl ctx post ?st3 = (st', err)"
      by (cases "runSequential sys wfl ctx post ?st3")
    with round c have rr: "runRound sys wfl ctx (readyTasks wfl st) st = (st', err)" by simp
    show "runFrom sys wfl results0 ctx lg0
              = (case runSequential sys wfl ctx post ?st3 of
                   (st', Some err) \<Rightarrow> (st', Some err)
                 | (st', None) \<Rightarrow> runLoop sys wfl ctx st')"
    proof (cases err)
      case None
      with rr runLoop_next [OF guard ne] start s show ?thesis by (simp add: runFrom_def)
    next
      case (Some e)
      with rr runLoop_error [OF guard ne] start s show ?thesis by (simp add: runFrom_def)
    qed
  qed
qed


text \<open>
  A dependency on a task that does not exist: \<open>a\<close> runs in the first round, the
  second round finds \<open>b\<close> stuck.
\<close>

theorem C2_deadlock_error_witness:
  "Run quietOS
     (workflowOf [] [zeroTask\<lparr>Name := ''a'', Type := ''shell''\<rparr>,
                     zeroTask\<lparr>Name := ''b'', Type := ''shell'', DependsOn := [''missing'']\<rparr>])
     [] None []
   = ([\<lparr>TaskName = ''a'', Success = True, Error = None, Output = []\<rparr>],
      Some (Deadlock [''b'']))"
proof -
  let ?a = "zeroTask\<lparr>Name := ''a'', Type := ''shell''\<rparr>"
  let ?b = "zeroTask\<lparr>Name := ''b'', Type := ''shell'', DependsOn := [''missing'']\<rparr>"
  let ?W = "workflowOf [] [?a, ?b]"
  let ?ra = "\<lparr>TaskName = ''a'', Success = True, Error = None, Output = []\<rparr>"
  let ?st0 = "\<lparr>results = [], executed = [], allResults = [], events = []\<rparr>"
  let ?st1 = "\<lparr>results = [(''a'', ?ra)], executed = [''a''], allResults = [?ra],
              events = [Shell None ''sh'' ''-c'' []]\<rparr>"
  have g0: "length (executed ?st0) < length (Tasks ?W)" by code_simp
  have r0: "readyTasks ?W ?st0 \<noteq> []" by code_simp
  have round: "runRound quietOS ?W None (readyTasks ?W ?st0) ?st0 = (?st1, None)" by code_simp
  have at: "atRound quietOS ?W None ?st0 ?st1"
    by (rule atRound.later [OF atRound.first g0 r0 round])
  have r1: "readyTasks ?W ?st1 = []" by code_simp
  have "?b \<in> set (Tasks ?W)" "Name ?b \<notin> set (executed ?st1)"
    by (simp_all add: workflowOf_def)
  then have stuck: "\<exists>t\<in>set (Tasks ?W). Name t \<notin> set (executed ?st1)" by blast
  have u: "unexecuted ?W ?st1 = [''b'']" by code_simp
  from C2_deadlock_error [of quietOS ?W None "[]" "[]" ?st1, THEN conjunct1] at r1 stuck
  have "Run quietOS ?W [] None [] = (allResults ?st1, Some (Deadlock (unexecuted ?W ?st1)))"
    by blast
  with u show ?thesis by simp
qed

text \<open>
  A task of an unknown type fails whatever the outside does: without
  \<open>ContinueOnError\<close> the run stops before \<open>g\<close>, with it \<open>g\<close> is executed.
\<close>

theorem C3_sequential_failure_witness:
  "Run quietOS
     (workflowOf [] [zeroTask\<lparr>Name := ''f'', Type := ''mail''\<rparr>,
                     zeroTask\<lparr>Name := ''g'', Type := ''shell''\<rparr>])
     [] None []
   = ([\<lparr>TaskName = ''f'', Success = False, Error = Some (UnknownTaskType ''mail''),
        Output = []\<rparr>],
      Some (TaskFailed ''f'' (Some (UnknownTaskType ''mail'')))) \<and>
   Run quietOS
     (workflowOf [] [zeroTask\<lparr>Name := ''f'', Type := ''mail'', ContinueOnError := True\<rparr>,
                     zeroTask\<lparr>Name := ''g'', Type := ''shell''\<rparr>])
     [] None []
   = ([\<lparr>TaskName = ''f'', Success = False, Error = Some (UnknownTaskType ''mail''),
        Output = []\<rparr>,
       \<lparr>TaskName = ''g'', Success = True, Error = None, Output = []\<rparr>],
      None)"
proof
  let ?f = "zeroTask\<lparr>Name := ''f'', Type := ''mail''\<rparr>"
  let ?g = "zeroTask\<lparr>Name := ''g'', Type := ''shell''\<rparr>"
  let ?W = "workflowOf [] [?f, ?g]"
  let ?rf = "\<lparr>TaskName = ''f'', Success = False, Error = Some (UnknownTaskType ''mail''),
              Output = []\<rparr>"
  let ?st0 = "\<lparr>results = [], executed = [], allResults = [], events = []\<rparr>"
  have p: "runParallel quietOS ?W None (filter Parallel (readyTasks ?W ?st0)) ?st0 = (?st0, None)"
    by code_simp
  have s: "filter (\<lambda>t. \<not> Parallel t) (readyTasks ?W ?st0) = [] @ ?f # [?g]" by code_simp
  have q: "runSequential quietOS ?W None [] ?st0 = (?st0, None)" by simp
  have e: "executeTask quietOS ?W (results ?st0) None ?f (events ?st0) = (Some ?rf, [])"
    by code_simp
  have n: "\<not> Success ?rf" by simp
  have c: "\<not> ContinueOnError ?f" by (simp add: zeroTask_def)
  from C3_sequential_failure [OF atRound.first p s q e n, THEN conjunct1] c
  have "Run quietOS ?W [] None []
          = (allResults ?st0 @ [?rf], Some (TaskFailed (Name ?f) (Error ?rf)))"
    by blast
  then show "Run quietOS ?W [] None []
          = ([?rf], Some (TaskFailed ''f'' (Some (UnknownTaskType ''mail''))))" by simp
next
  let ?f = "zeroTask\<lparr>Name := ''f'', Type := ''mail'', ContinueOnError := True\<rparr>"
  let ?g = "zeroTask\<lparr>Name := ''g'', Type := ''shell''\<rparr>"
  let ?W = "workflowOf [] [?f, ?g]"
  let ?rf = "\<lparr>TaskName = ''f'', Success = False, Error = Some (UnknownTaskType ''mail''),
              Output = []\<rparr>"
  let ?rg = "\<lparr>TaskName = ''g'', Success = True, Error = None, Output = []\<rparr>"
  let ?st0 = "\<lparr>results = [], executed = [], allResults = [], events = []\<rparr>"
  have p: "runParallel quietOS ?W None (filter Parallel (readyTasks ?W ?st0)) ?st0 = (?st0, None)"
    by code_simp
  have s: "filter (\<lambda>t. \<not> Parallel t) (readyTasks ?W ?st0) = [] @ ?f # [?g]" by code_simp
  have q: "runSequential quietOS ?W None [] ?st0 = (?st0, None)" by simp
  have e: "executeTask quietOS ?W (results ?st0) None ?f (events ?st0) = (Some ?rf, [])"
    by code_simp
  have n: "\<not> Success ?rf" by simp
  have c: "ContinueOnError ?f" by simp
  have k: "(case runSequential quietOS ?W None [?g] (recordResult ?rf (?st0\<lparr>events := []\<rparr>)) of
              (st', Some err) \<Rightarrow> (st', Some err)
            | (st', None) \<Rightarrow> runLoop quietOS ?W None st')
           = (\<lparr>results = [(''f'', ?rf), (''g'', ?rg)], executed = [''g'', ''f''],
               allResults = [?rf, ?rg], events = [Shell None ''sh'' ''-c'' []]\<rparr>, None)"
    by code_simp
  from C3_sequential_failure [OF atRound.first p s q e n, THEN conjunct2] c
  have "runFrom quietOS ?W [] None []
          = (case runSequential quietOS ?W None [?g] (recordResult ?rf (?st0\<lparr>events := []\<rparr>)) of
              (st', Some err) \<Rightarrow> (st', Some err)
            | (st', None) \<Rightarrow> runLoop quietOS ?W None st')"
    by blast
  with k show "Run quietOS ?W [] None [] = ([?rf, ?rg], None)"
    by (simp add: Run_def)
qed

section \<open>Workflows without dependencies\<close>

lemma state_fields:
  "st' = s\<lparr>events := lg\<rparr> \<Longrightarrow>
   allResults st' = allResults s \<and> executed st' = executed s \<and> results st' = results s"
  by simp

lemma readyTasks_no_dependencies:
  assumes "\<forall>t\<in>set (Tasks wfl). DependsOn t = []"
  shows "readyTasks wfl \<lparr>results = results0, executed = [], allResults = [], events = lg0\<rparr>
           = Tasks wfl"
  using assms by (simp add: readyTasks_def dependenciesMet_def)

lemma mset_names_partition:
  "mset (map Name (filter Parallel ts)) + mset (map Name (filter (\<lambda>t. \<not> Parallel t) ts))
     = mset (map Name ts)"
  by (induction ts) simp_all

lemma run_no_dependencies:
  assumes nodeps: "\<forall>t\<in>set (Tasks wfl). DependsOn t = []"
    and run: "Run sys wfl results0 ctx lg0 = (rs, err)"
  shows "\<exists>k. k \<le> length (filter (\<lambda>t. \<not> Parallel t) (Tasks wfl)) \<and>
           map TaskName rs = map Name (filter Parallel (Tasks wfl))
                              @ map Name (take k (filter (\<lambda>t. \<not> Parallel t) (Tasks wfl))) \<and>
           ((\<forall>n e. err \<noteq> Some (TaskFailed n e))
              \<longrightarrow> k = length (filter (\<lambda>t. \<not> Parallel t) (Tasks wfl)))"
proof (cases "Tasks wfl = []")
  case True
  let ?st0 = "\<lparr>results = results0, executed = [], allResults = [], events = lg0\<rparr>"
  from True have "runLoop sys wfl ctx ?st0 = (?st0, None)" by (simp add: runLoop_done)
  with run have "rs = []" by (simp add: Run_def runFrom_def)
  with True show ?thesis by simp
next
  case False
  let ?st0 = "\<lparr>results = results0, executed = [], allResults = [], events = lg0\<rparr>"
  let ?seq = "filter (\<lambda>t. \<not> Parallel t) (Tasks wfl)"
  have ready: "readyTasks wfl ?st0 = Tasks wfl"
    using nodeps by (rule readyTasks_no_dependencies)
  from False have guard: "length (executed ?st0) < length (Tasks wfl)" by simp
  from False ready have ne: "readyTasks wfl ?st0 \<noteq> []" by simp
  obtain st1 err1 where round: "runRound sys wfl ctx (readyTasks wfl ?st0) ?st0 = (st1, err1)"
    by (cases "runRound sys wfl ctx (readyTasks wfl ?st0) ?st0")
  from runRound_effect [OF round] ready obtain rsP rsS where e:
    "st1 = (recordAll (rsP @ rsS) ?st0)\<lparr>events := events st1\<rparr>"
    "list_all2 resultOf (filter Parallel (Tasks wfl)) rsP"
    "list_all2 resultOf (take (length rsS) ?seq) rsS"
    "err1 = None \<longrightarrow> length rsS = length ?seq"
    "\<forall>e. err1 = Some e \<longrightarrow> (\<exists>n x. e = TaskFailed n x)"
    by auto
  from state_fields [OF e(1)] have f: "allResults st1 = rsP @ rsS"
    "set (executed st1) = TaskName ` set (rsP @ rsS)" by auto
  from e(3) have len: "length rsS \<le> length ?seq"
    by (auto dest!: list_all2_lengthD)
  have names: "map TaskName (allResults st1)
                 = map Name (filter Parallel (Tasks wfl)) @ map Name (take (length rsS) ?seq)"
    using f(1) resultOf_names [OF e(2)] resultOf_names [OF e(3)] by simp
  show ?thesis
  proof (cases err1)
    case (Some e1)
    from runLoop_error [OF guard ne] round Some
    have "runLoop sys wfl ctx ?st0 = (st1, Some e1)" by simp
    with run have "rs = allResults st1" "err = Some e1" by (simp_all add: Run_def runFrom_def)
    moreover from e(5) Some obtain n x where "e1 = TaskFailed n x" by blast
    ultimately show ?thesis using names len by (intro exI [of _ "length rsS"]) auto
  next
    case None
    with e(4) have all: "length rsS = length ?seq" by simp
    from runLoop_next [OF guard ne] round None
    have next': "runLoop sys wfl ctx ?st0 = runLoop sys wfl ctx st1" by simp
    have "set (map TaskName (allResults st1)) = Name ` set (Tasks wfl)"
      unfolding names all by auto
    with f have "Name ` set (Tasks wfl) \<subseteq> set (executed st1)" by auto
    then have "readyTasks wfl st1 = []"
      by (auto simp: readyTasks_def filter_empty_conv)
    then have "\<exists>err'. runLoop sys wfl ctx st1 = (st1, err')"
      by (cases "length (executed st1) < length (Tasks wfl)")
         (simp_all add: runLoop_deadlock runLoop_done)
    with next' run have "rs = allResults st1" by (auto simp: Run_def runFrom_def)
    with names all show ?thesis by (intro exI [of _ "length ?seq"]) simp
  qed
qed

text \<open>
  Claim C7 fails as stated. Neither task of this workflow has a dependency; \<open>f\<close> has
  an unknown type, so it fails whatever the outside does, and it is a sequential task
  without \<open>ContinueOnError\<close>: the run stops after it, \<open>g\<close> is never executed and
  there is one result for two tasks.
\<close>

theorem C7_counterexample:
  "map DependsOn
     (Tasks (workflowOf [] [zeroTask\<lparr>Name := ''f'', Type := ''mail''\<rparr>,
                            zeroTask\<lparr>Name := ''g'', Type := ''shell''\<rparr>])) = [[], []] \<and>
   Run quietOS
     (workflowOf [] [zeroTask\<lparr>Name := ''f'', Type := ''mail''\<rparr>,
                     zeroTask\<lparr>Name := ''g'', Type := ''shell''\<rparr>])
     [] None []
   = ([\<lparr>TaskName = ''f'', Success = False, Error = Some (UnknownTaskType ''mail''),
        Output = []\<rparr>],
      Some (TaskFailed ''f'' (Some (UnknownTaskType ''mail'')))) \<and>
   length [\<lparr>TaskName = ''f'', Success = False, Error = Some (UnknownTaskType ''mail''),
           Output = []\<rparr>]
     \<noteq> length (Tasks (workflowOf [] [zeroTask\<lparr>Name := ''f'', Type := ''mail''\<rparr>,
                                     zeroTask\<lparr>Name := ''g'', Type := ''shell''\<rparr>]))"
  by code_simp

text \<open>
  Claim C7, amended. In a workflow without dependencies no task is executed more
  often than it is declared; and, provided that \<open>Run\<close> does not stop with the error
  of a failed sequential task, every task is executed exactly once, whatever the
  order of the declarations: the results are those of the parallel tasks followed by
  those of the sequential tasks, each group in declared order, so there are as many
  results as tasks.
\<close>

theorem C7_independent_tasks_once:
  assumes "\<forall>t\<in>set (Tasks wfl). DependsOn t = []"
    and "Run sys wfl results0 ctx lg0 = (rs, err)"
  shows "mset (map TaskName rs) \<subseteq># mset (map Name (Tasks wfl)) \<and>
         ((\<forall>n e. err \<noteq> Some (TaskFailed n e)) \<longrightarrow>
            map TaskName rs = map Name (filter Parallel (Tasks wfl))
                               @ map Name (filter (\<lambda>t. \<not> Parallel t) (Tasks wfl)) \<and>
            mset (map TaskName rs) = mset (map Name (Tasks wfl)) \<and>
            length rs = length (Tasks wfl))"
proof -
  let ?seq = "filter (\<lambda>t. \<not> Parallel t) (Tasks wfl)"
  from run_no_dependencies [OF assms] obtain k where k:
    "k \<le> length ?seq"
    "map TaskName rs = map Name (filter Parallel (Tasks wfl)) @ map Name (take k ?seq)"
    "(\<forall>n e. err \<noteq> Some (TaskFailed n e)) \<longrightarrow> k = length ?seq"
    by blast
  have "mset (map Name (take k ?seq)) \<subseteq># mset (map Name ?seq)"
    by (metis append_take_drop_id map_append mset_append mset_subset_eq_add_left)
  then have "mset (map TaskName rs)
               \<subseteq># mset (map Name (filter Parallel (Tasks wfl))) + mset (map Name ?seq)"
    unfolding k(2) by simp
  then have 1: "mset (map TaskName rs) \<subseteq># mset (map Name (Tasks wfl))"
    by (simp only: mset_names_partition)
  have 2: "map TaskName rs = map Name (filter Parallel (Tasks wfl)) @ map Name ?seq \<and>
           mset (map TaskName rs) = mset (map Name (Tasks wfl)) \<and>
           length rs = length (Tasks wfl)"
    if "\<forall>n e. err \<noteq> Some (TaskFailed n e)"
  proof -
    from that k(3) have "k = length ?seq" by simp
    with k(2) have n: "map TaskName rs = map Name (filter Parallel (Tasks wfl)) @ map Name ?seq"
      by simp
    then have "mset (map TaskName rs)
                 = mset (map Name (filter Parallel (Tasks wfl))) + mset (map Name ?seq)"
      by (simp only: mset_append)
    then have m: "mset (map TaskName rs) = mset (map Name (Tasks wfl))"
      by (simp only: mset_names_partition)
    then have "size (mset (map TaskName rs)) = size (mset (map Name (Tasks wfl)))" by simp
    then have "length rs = length (Tasks wfl)" by simp
    with n m show ?thesis by simp
  qed
  from 1 2 show ?thesis by blast
qed


theorem C7_independent_tasks_once_witness:
  "Run quietOS
     (workflowOf [] [zeroTask\<lparr>Name := ''a'', Type := ''shell'', Parallel := True\<rparr>,
                     zeroTask\<lparr>Name := ''b'', Type := ''shell''\<rparr>,
                     zeroTask\<lparr>Name := ''c'', Type := ''shell'', Parallel := True\<rparr>])
     [] None []
   = ([\<lparr>TaskName = ''a'', Success = True, Error = None, Output = []\<rparr>,
       \<lparr>TaskName = ''c'', Success = True, Error = None, Output = []\<rparr>,
       \<lparr>TaskName = ''b'', Success = True, Error = None, Output = []\<rparr>], None) \<and>
   mset (map TaskName
           [\<lparr>TaskName = ''a'', Success = True, Error = None, Output = []\<rparr>,
            \<lparr>TaskName = ''c'', Success = True, Error = None, Output = []\<rparr>,
            \<lparr>TaskName = ''b'', Success = True, Error = None, Output = []\<rparr>])
     = mset [''a'', ''b'', ''c'']"
proof -
  let ?a = "zeroTask\<lparr>Name := ''a'', Type := ''shell'', Parallel := True\<rparr>"
  let ?b = "zeroTask\<lparr>Name := ''b'', Type := ''shell''\<rparr>"
  let ?c = "zeroTask\<lparr>Name := ''c'', Type := ''shell'', Parallel := True\<rparr>"
  let ?W = "workflowOf [] [?a, ?b, ?c]"
  let ?rs = "[\<lparr>TaskName = ''a'', Success = True, Error = None, Output = []\<rparr>,
       \<lparr>TaskName = ''c'', Success = True, Error = None, Output = []\<rparr>,
       \<lparr>TaskName = ''b'', Success = True, Error = None, Output = []\<rparr>]"
  have d: "\<forall>t\<in>set (Tasks ?W). DependsOn t = []" by (simp add: workflowOf_def zeroTask_def)
  have r: "Run quietOS ?W [] None [] = (?rs, None)" by code_simp
  have n: "\<forall>n e. (None :: run_error option) \<noteq> Some (TaskFailed n e)" by simp
  from C7_independent_tasks_once [OF d r, THEN conjunct2] n
  have "mset (map TaskName ?rs) = mset (map Name (Tasks ?W))" by blast
  then have "mset (map TaskName ?rs) = mset [''a'', ''b'', ''c'']"
    by (simp add: workflowOf_def)
  with r show ?thesis by (rule conjI)
qed

section \<open>Dependencies\<close>

text \<open>
  Three invariants of the rounds. \<open>recorded\<close>: every executed name has its result in
  the store and among the results gathered. \<open>ordered\<close>: every result of a task
  comes after a successful result of each of its dependencies. \<open>once\<close>: no two
  results have the same name, and every result is that of an executed name.
\<close>

definition recorded :: "run_state \<Rightarrow> bool" where
  "recorded st =
     (\<forall>n\<in>set (executed st). \<exists>r\<in>set (allResults st).
         map_of (results st) n = Some r \<and> TaskName r = n)"

lemma recorded_recordResult: "recorded st \<Longrightarrow> recorded (recordResult r st)"
  unfolding recorded_def by (auto simp: map_of_storeResult)

lemma recorded_recordAll: "recorded st \<Longrightarrow> recorded (recordAll rs st)"
  by (induction rs arbitrary: st) (simp_all add: recorded_recordResult)

lemma recorded_fields:
  "allResults st' = allResults s \<and> executed st' = executed s \<and> results st' = results s \<Longrightarrow>
   recorded st' = recorded s"
  by (simp add: recorded_def)

lemma ready_dependency:
  assumes "recorded st" and "B \<in> set (readyTasks wfl st)" and "A \<in> set (DependsOn B)"
  shows "A \<in> set (executed st) \<and>
         (\<exists>r\<in>set (allResults st). TaskName r = A \<and> Success r \<and> map_of (results st) A = Some r)"
proof -
  from assms(2,3) have a: "A \<in> set (executed st)"
    and s: "\<forall>r. map_of (results st) A = Some r \<longrightarrow> Success r"
    by (auto simp: readyTasks_def dependenciesMet_def dependenciesMetLoop_iff)
  from assms(1) a obtain r where "r \<in> set (allResults st)" "map_of (results st) A = Some r"
    "TaskName r = A"
    unfolding recorded_def by blast
  with a s show ?thesis by blast
qed

definition ordered :: "Workflow \<Rightarrow> TaskResult list \<Rightarrow> bool" where
  "ordered wfl rs =
     (\<forall>j<length rs. \<forall>B\<in>set (Tasks wfl). Name B = TaskName (rs ! j) \<longrightarrow>
        (\<forall>A\<in>set (DependsOn B). \<exists>i<j. TaskName (rs ! i) = A \<and> Success (rs ! i)))"

definition once :: "run_state \<Rightarrow> bool" where
  "once st =
     (distinct (map TaskName (allResults st)) \<and>
      TaskName ` set (allResults st) \<subseteq> set (executed st))"

lemma distinct_map_partition:
  assumes "distinct (map f xs)"
  shows "distinct (map f (filter P xs @ take k (filter (\<lambda>x. \<not> P x) xs)))"
proof -
  have "mset (map f (filter P xs @ filter (\<lambda>x. \<not> P x) xs)) = mset (map f xs)"
    by (induction xs) simp_all
  with assms have "distinct (map f (filter P xs @ filter (\<lambda>x. \<not> P x) xs))"
    by (metis mset_eq_imp_distinct_iff)
  then have d: "distinct (map f (filter P xs))" "distinct (map f (filter (\<lambda>x. \<not> P x) xs))"
    "f ` set (filter P xs) \<inter> f ` set (filter (\<lambda>x. \<not> P x) xs) = {}"
    by simp_all
  from d(2) have "distinct (take k (map f (filter (\<lambda>x. \<not> P x) xs)))" by (rule distinct_take)
  then have "distinct (map f (take k (filter (\<lambda>x. \<not> P x) xs)))" by (simp add: take_map)
  moreover have "set (take k (filter (\<lambda>x. \<not> P x) xs)) \<subseteq> set (filter (\<lambda>x. \<not> P x) xs)"
    by (rule set_take_subset)
  ultimately show ?thesis using d(1,3) by auto
qed

lemma runRound_order:
  assumes round: "runRound sys wfl ctx (readyTasks wfl st) st = (st', err)"
    and dn: "distinct (map Name (Tasks wfl))"
    and inv: "recorded st" "ordered wfl (allResults st)" "once st"
  shows "recorded st' \<and> ordered wfl (allResults st') \<and> once st'"
proof -
  let ?ready = "readyTasks wfl st"
  let ?old = "allResults st"
  from runRound_effect [OF round] obtain rsP rsS where e:
    "st' = (recordAll (rsP @ rsS) st)\<lparr>events := events st'\<rparr>"
    "list_all2 resultOf (filter Parallel ?ready) rsP"
    "list_all2 resultOf (take (length rsS) (filter (\<lambda>t. \<not> Parallel t) ?ready)) rsS"
    by blast
  let ?new = "rsP @ rsS"
  let ?ts = "filter Parallel ?ready @ take (length rsS) (filter (\<lambda>t. \<not> Parallel t) ?ready)"
  note f = state_fields [OF e(1)]
  from f have all: "allResults st' = ?old @ ?new"
    and ex: "set (executed st') = set (executed st) \<union> TaskName ` set ?new"
    by auto
  have names: "map TaskName ?new = map Name ?ts"
    using resultOf_names [OF e(2)] resultOf_names [OF e(3)] by simp
  have ts_ready: "set ?ts \<subseteq> set ?ready"
    using set_take_subset [of "length rsS" "filter (\<lambda>t. \<not> Parallel t) ?ready"] by auto
  have "distinct (map Name ?ready)"
    unfolding readyTasks_def using dn by (rule distinct_map_filter)
  then have dts: "distinct (map Name ?ts)" by (rule distinct_map_partition)
  have fresh: "Name ` set ?ts \<inter> set (executed st) = {}"
    using ts_ready by (auto simp: readyTasks_def)
  have new_names: "TaskName ` set ?new = Name ` set ?ts"
    using names by (metis list.set_map)
  have 1: "recorded st'"
    using recorded_fields [OF f] recorded_recordAll [OF inv(1), of "rsP @ rsS"] by simp
  have 3: "once st'"
  proof -
    from inv(3) have o: "distinct (map TaskName ?old)" "TaskName ` set ?old \<subseteq> set (executed st)"
      by (simp_all add: once_def)
    from dts names have "distinct (map TaskName ?new)" by simp
    moreover from o(2) fresh new_names have "TaskName ` set ?old \<inter> TaskName ` set ?new = {}"
      by auto
    ultimately have "distinct (map TaskName ?old @ map TaskName ?new)"
      using o(1) by (simp only: distinct_append set_map)
    then have "distinct (map TaskName (?old @ ?new))" by (simp only: map_append)
    moreover from o(2) ex have "TaskName ` set (?old @ ?new) \<subseteq> set (executed st')" by auto
    ultimately show ?thesis unfolding once_def all by simp
  qed
  have 2: "ordered wfl (allResults st')"
    unfolding ordered_def all
  proof (intro allI impI ballI)
    fix j B A
    assume j: "j < length (?old @ ?new)" and B: "B \<in> set (Tasks wfl)"
      and nm: "Name B = TaskName ((?old @ ?new) ! j)" and A: "A \<in> set (DependsOn B)"
    show "\<exists>i<j. TaskName ((?old @ ?new) ! i) = A \<and> Success ((?old @ ?new) ! i)"
    proof (cases "j < length ?old")
      case True
      with nm have "Name B = TaskName (?old ! j)" by (simp add: nth_append)
      with inv(2) True B A obtain i where "i < j" "TaskName (?old ! i) = A" "Success (?old ! i)"
        unfolding ordered_def by blast
      with True show ?thesis by (intro exI [of _ i]) (simp add: nth_append)
    next
      case False
      let ?k = "j - length ?old"
      from False j have k: "?k < length ?new" by simp
      from False nm have "Name B = TaskName (?new ! ?k)" by (simp add: nth_append)
      also from k have "\<dots> = map TaskName ?new ! ?k" by (rule nth_map [symmetric])
      also have "\<dots> = map Name ?ts ! ?k" by (simp only: names)
      also from k names have "\<dots> = Name (?ts ! ?k)"
        by (metis length_map nth_map)
      finally have nb: "Name B = Name (?ts ! ?k)" .
      from k names have "?k < length ?ts" by (metis length_map)
      then have "?ts ! ?k \<in> set ?ts" by (rule nth_mem)
      with ts_ready have tr: "?ts ! ?k \<in> set ?ready" by blast
      then have "?ts ! ?k \<in> set (Tasks wfl)" by (simp add: readyTasks_def)
      with dn B nb have "B = ?ts ! ?k"
        by (meson distinct_map inj_onD)
      with tr have "B \<in> set ?ready" by simp
      from ready_dependency [OF inv(1) this A] obtain r where
        "r \<in> set ?old" "TaskName r = A" "Success r" by blast
      then obtain i where "i < length ?old" "?old ! i = r" by (auto simp: in_set_conv_nth)
      with False \<open>TaskName r = A\<close> \<open>Success r\<close> show ?thesis
        by (intro exI [of _ i]) (simp add: nth_append)
    qed
  qed
  from 1 2 3 show ?thesis by blast
qed


lemma atRound_trans:
  "atRound sys wfl ctx b c \<Longrightarrow> atRound sys wfl ctx a b \<Longrightarrow> atRound sys wfl ctx a c"
  by (induction rule: atRound.induct) (auto intro: atRound.later)

lemma runLoop_final:
  "runLoop sys wfl ctx st = (stf, err) \<Longrightarrow>
   \<exists>st2. atRound sys wfl ctx st st2 \<and>
         (stf = st2 \<or> runRound sys wfl ctx (readyTasks wfl st2) st2 = (stf, err))"
proof (induction sys wfl ctx st rule: runLoop.induct)
  case (1 sys wfl ctx st)
  show ?case
  proof (cases "length (executed st) < length (Tasks wfl) \<and> readyTasks wfl st \<noteq> []")
    case False
    with "1.prems" have "stf = st"
      by (cases "length (executed st) < length (Tasks wfl)")
         (auto simp: runLoop_done runLoop_deadlock)
    then show ?thesis using atRound.first by blast
  next
    case True
    then have guard: "length (executed st) < length (Tasks wfl)"
      and ne: "readyTasks wfl st \<noteq> []" by simp_all
    obtain st' e where round: "runRound sys wfl ctx (readyTasks wfl st) st = (st', e)"
      by (cases "runRound sys wfl ctx (readyTasks wfl st) st")
    show ?thesis
    proof (cases e)
      case (Some x)
      with runLoop_error [OF guard ne] round "1.prems" have "stf = st'" "err = e" by simp_all
      with round show ?thesis using atRound.first by blast
    next
      case None
      with runLoop_next [OF guard ne] round "1.prems"
      have "runLoop sys wfl ctx st' = (stf, err)" by simp
      from "1.IH" [OF guard ne round [symmetric] None this]
      obtain st2 where st2: "atRound sys wfl ctx st' st2"
        "stf = st2 \<or> runRound sys wfl ctx (readyTasks wfl st2) st2 = (stf, err)" by blast
      from round None have "atRound sys wfl ctx st st'"
        using atRound.later [OF atRound.first guard ne] by simp
      with st2(1) have "atRound sys wfl ctx st st2" by (rule atRound_trans)
      with st2(2) show ?thesis by blast
    qed
  qed
qed

lemma atRound_order:
  "atRound sys wfl ctx st0 st \<Longrightarrow> distinct (map Name (Tasks wfl)) \<Longrightarrow>
   recorded st0 \<and> ordered wfl (allResults st0) \<and> once st0 \<Longrightarrow>
   recorded st \<and> ordered wfl (allResults st) \<and> once st"
proof (induction rule: atRound.induct)
  case first
  then show ?case by simp
next
  case (later st st')
  then have "recorded st" "ordered wfl (allResults st)" "once st" by simp_all
  with later.hyps(4) later.prems(1) show ?case by (rule runRound_order)
qed

lemma atRound_recorded:
  "atRound sys wfl ctx st0 st \<Longrightarrow> recorded st0 \<Longrightarrow> recorded st"
proof (induction rule: atRound.induct)
  case first
  then show ?case .
next
  case (later st st')
  from runRound_effect [OF later.hyps(4)] obtain rsP rsS where
    "st' = (recordAll (rsP @ rsS) st)\<lparr>events := events st'\<rparr>" by blast
  from recorded_fields [OF state_fields [OF this]] later
    recorded_recordAll [of st "rsP @ rsS"]
  show ?case by simp
qed

lemma initial_invariants:
  "recorded \<lparr>results = results0, executed = [], allResults = [], events = lg0\<rparr> \<and>
   ordered wfl (allResults \<lparr>results = results0, executed = [], allResults = [], events = lg0\<rparr>) \<and>
   once \<lparr>results = results0, executed = [], allResults = [], events = lg0\<rparr>"
  by (simp add: recorded_def ordered_def once_def)

text \<open>
  Claim C5. A round executes the tasks that are ready when it begins, and no others.
  First: whenever a task \<open>B\<close> is ready in a round of a run and \<open>A\<close> is one of its
  dependencies, \<open>A\<close> is executed, and its result is already among the results
  gathered and in the store, and is a success; so \<open>B\<close> does not begin before the
  result of \<open>A\<close> is recorded, and is never ready while the recorded result of \<open>A\<close>
  is a failure, whatever the \<open>ContinueOnError\<close> flag of \<open>A\<close>. Second, for a
  workflow whose task names are distinct (a dependency names its task), in what \<open>Run\<close>
  returns: every result of \<open>B\<close> comes after a successful result of \<open>A\<close>, and if the
  result of \<open>A\<close> is a failure there is no result of \<open>B\<close>: \<open>B\<close> was not executed.
\<close>

theorem C5_dependencies_first:
  "(atRound sys wfl ctx \<lparr>results = results0, executed = [], allResults = [], events = lg0\<rparr> st \<and>
    B \<in> set (readyTasks wfl st) \<and> A \<in> set (DependsOn B) \<longrightarrow>
      A \<in> set (executed st) \<and>
      (\<exists>r\<in>set (allResults st). TaskName r = A \<and> Success r \<and> map_of (results st) A = Some r)) \<and>
   (distinct (map Name (Tasks wfl)) \<and> Run sys wfl results0 ctx lg0 = (rs, err) \<and>
    B \<in> set (Tasks wfl) \<and> A \<in> set (DependsOn B) \<longrightarrow>
      (\<forall>j<length rs. TaskName (rs ! j) = Name B \<longrightarrow>
         (\<exists>i<j. TaskName (rs ! i) = A \<and> Success (rs ! i))) \<and>
      ((\<exists>r\<in>set rs. TaskName r = A \<and> \<not> Success r) \<longrightarrow> Name B \<notin> TaskName ` set rs))"
proof (intro conjI impI)
  let ?st0 = "\<lparr>results = results0, executed = [], allResults = [], events = lg0\<rparr>"
  assume a: "atRound sys wfl ctx ?st0 st \<and> B \<in> set (readyTasks wfl st) \<and> A \<in> set (DependsOn B)"
  then have "recorded st"
    using atRound_recorded initial_invariants by blast
  from ready_dependency [OF this] a
  show "A \<in> set (executed st)"
    and "\<exists>r\<in>set (allResults st). TaskName r = A \<and> Success r \<and> map_of (results st) A = Some r"
    by blast+
next
  let ?st0 = "\<lparr>results = results0, executed = [], allResults = [], events = lg0\<rparr>"
  assume a: "distinct (map Name (Tasks wfl)) \<and> Run sys wfl results0 ctx lg0 = (rs, err) \<and>
    B \<in> set (Tasks wfl) \<and> A \<in> set (DependsOn B)"
  then obtain stf where stf: "runLoop sys wfl ctx ?st0 = (stf, err)" "rs = allResults stf"
    by (cases "runLoop sys wfl ctx ?st0") (auto simp: Run_def runFrom_def)
  from runLoop_final [OF stf(1)] obtain st2 where st2: "atRound sys wfl ctx ?st0 st2"
    "stf = st2 \<or> runRound sys wfl ctx (readyTasks wfl st2) st2 = (stf, err)" by blast
  from a have dn: "distinct (map Name (Tasks wfl))" by simp
  from atRound_order [OF st2(1) dn initial_invariants]
  have i2: "recorded st2" "ordered wfl (allResults st2)" "once st2" by simp_all
  have "recorded stf \<and> ordered wfl (allResults stf) \<and> once stf"
  proof (cases "stf = st2")
    case True
    with i2 show ?thesis by simp
  next
    case False
    with st2(2) have "runRound sys wfl ctx (readyTasks wfl st2) st2 = (stf, err)" by simp
    from this dn i2 show ?thesis by (rule runRound_order)
  qed
  with stf(2) have ord: "ordered wfl rs" and dist: "distinct (map TaskName rs)"
    by (simp_all add: once_def)
  from ord a show first: "\<forall>j<length rs. TaskName (rs ! j) = Name B \<longrightarrow>
         (\<exists>i<j. TaskName (rs ! i) = A \<and> Success (rs ! i))"
    unfolding ordered_def by metis
  show "Name B \<notin> TaskName ` set rs" if "\<exists>r\<in>set rs. TaskName r = A \<and> \<not> Success r"
  proof
    assume "Name B \<in> TaskName ` set rs"
    then obtain j where j: "j < length rs" "TaskName (rs ! j) = Name B"
      by (auto simp: in_set_conv_nth)
    with first obtain i where i: "i < j" "TaskName (rs ! i) = A" "Success (rs ! i)" by blast
    from that obtain i' where i': "i' < length rs" "TaskName (rs ! i') = A" "\<not> Success (rs ! i')"
      by (auto simp: in_set_conv_nth)
    from i j i' have e: "map TaskName rs ! i = map TaskName rs ! i'"
      and l: "i < length (map TaskName rs)" "i' < length (map TaskName rs)" by simp_all
    from nth_eq_iff_index_eq [OF dist l] e have "i = i'" by blast
    with i(3) i'(3) show False by simp
  qed
qed


text \<open>
  The task \<open>a\<close> fails and has \<open>ContinueOnError\<close>, so the run goes on with \<open>c\<close>;
  \<open>b\<close>, which depends on \<open>a\<close>, is never executed and the run ends with \<open>b\<close> stuck.
\<close>

theorem C5_dependencies_first_witness:
  "Run quietOS
     (workflowOf [] [zeroTask\<lparr>Name := ''a'', Type := ''mail'', ContinueOnError := True\<rparr>,
                     zeroTask\<lparr>Name := ''b'', Type := ''shell'', DependsOn := [''a'']\<rparr>,
                     zeroTask\<lparr>Name := ''c'', Type := ''shell''\<rparr>])
     [] None []
   = ([\<lparr>TaskName = ''a'', Success = False, Error = Some (UnknownTaskType ''mail''),
        Output = []\<rparr>,
       \<lparr>TaskName = ''c'', Success = True, Error = None, Output = []\<rparr>],
      Some (Deadlock [''b''])) \<and>
   ''b'' \<notin> TaskName `
     set [\<lparr>TaskName = ''a'', Success = False, Error = Some (UnknownTaskType ''mail''),
            Output = []\<rparr>,
          \<lparr>TaskName = ''c'', Success = True, Error = None, Output = []\<rparr>]"
proof -
  let ?a = "zeroTask\<lparr>Name := ''a'', Type := ''mail'', ContinueOnError := True\<rparr>"
  let ?b = "zeroTask\<lparr>Name := ''b'', Type := ''shell'', DependsOn := [''a'']\<rparr>"
  let ?c = "zeroTask\<lparr>Name := ''c'', Type := ''shell''\<rparr>"
  let ?W = "workflowOf [] [?a, ?b, ?c]"
  let ?ra = "\<lparr>TaskName = ''a'', Success = False, Error = Some (UnknownTaskType ''mail''),
              Output = []\<rparr>"
  let ?rc = "\<lparr>TaskName = ''c'', Success = True, Error = None, Output = []\<rparr>"
  have r: "Run quietOS ?W [] None [] = ([?ra, ?rc], Some (Deadlock [''b'']))" by code_simp
  have d: "distinct (map Name (Tasks ?W))" by (simp add: workflowOf_def)
  have b: "?b \<in> set (Tasks ?W)" by (simp add: workflowOf_def)
  have a: "''a'' \<in> set (DependsOn ?b)" by simp
  have f: "\<exists>r\<in>set [?ra, ?rc]. TaskName r = ''a'' \<and> \<not> Success r" by simp
  from C5_dependencies_first [of quietOS ?W None "[]" "[]" _ ?b "''a''" "[?ra, ?rc]"
         "Some (Deadlock [''b''])", THEN conjunct2] d r b a
  have "(\<exists>r\<in>set [?ra, ?rc]. TaskName r = ''a'' \<and> \<not> Success r)
          \<longrightarrow> Name ?b \<notin> TaskName ` set [?ra, ?rc]"
    by blast
  with f have "Name ?b \<notin> TaskName ` set [?ra, ?rc]" by blast
  then have "''b'' \<notin> TaskName ` set [?ra, ?rc]" by simp
  with r show ?thesis by (rule conjI)
qed

end
